theory Spec2Isabelle
  imports Main "HOL-Library.Word" "HOL-Library.List_Lexorder"
begin

unbundle bit_operations_syntax

section \<open>Bytes, strings and the hash\<close>

text \<open>
  A \<^verbatim>\<open>std::string\<close> is a sequence of bytes. The element type \<^verbatim>\<open>char\<close> is a signed
  8-bit integer on the x86-64 Linux targets the dictionary is built for (the file uses
  \<^verbatim>\<open>mmap\<close>, \<^verbatim>\<open>madvise\<close> and \<^verbatim>\<open>getpagesize\<close>), so reading \<^verbatim>\<open>str[i]\<close> into a
  32-bit unsigned expression sign-extends the byte.
\<close>

type_synonym byte = "8 word"
type_synonym str = "byte list"

text \<open>
  \<^verbatim>\<open>str_hash = str_hash * 997 + str[i]\<close> in \<^verbatim>\<open>uint32_t\<close>: the \<^verbatim>\<open>char\<close> is promoted
  to \<^verbatim>\<open>int\<close> (sign extension, \<open>scast\<close>) and converted to \<^verbatim>\<open>uint32_t\<close>.
\<close>

definition rk_hash_step :: "32 word \<Rightarrow> byte \<Rightarrow> 32 word" where
  "rk_hash_step str_hash c = str_hash * 997 + scast c"

definition rk_hash :: "str \<Rightarrow> 32 word" where
  "rk_hash s = foldl rk_hash_step 1 s"

text \<open>The fold of the specification's words: every byte taken as an unsigned value.\<close>

definition rk_hash_unsigned_spec :: "str \<Rightarrow> nat" where
  "rk_hash_unsigned_spec s = foldl (\<lambda>h b. (h * 997 + unat b) mod 2 ^ 32) 1 s"

text \<open>The same fold with every byte taken as a signed value in \<open>-128..127\<close>.\<close>

definition rk_hash_signed_fold :: "str \<Rightarrow> int" where
  "rk_hash_signed_fold s = foldl (\<lambda>h b. (h * 997 + sint b) mod 2 ^ 32) 1 s"


section \<open>Constants and helpers declared outside the translation unit\<close>

text \<open>
  \<^verbatim>\<open>StringDictionary.h\<close>, \<^verbatim>\<open>Shared/sqltypes.h\<close>, \<^verbatim>\<open>Utils/StringLike.h\<close> and
  \<^verbatim>\<open>Shared/thread_count.h\<close> are included by \<^verbatim>\<open>StringDictionary.cpp\<close> but are not part of
  the sources at hand. The compile-time bounds and the values the operating system
  reports are parameters of the model.
\<close>

record config =
  MAX_STRLEN :: nat
  MAX_STRCOUNT :: nat
  SYSTEM_PAGE_SIZE :: nat
  sizeof_StringIdxEntry :: nat
  cpu_threads :: nat
  hardware_concurrency :: nat
  compare_cache_capacity :: nat
  is_like :: "str \<Rightarrow> str \<Rightarrow> bool \<Rightarrow> bool \<Rightarrow> byte \<Rightarrow> bool"

text \<open>\<^verbatim>\<open>static const ssize_t CANARY_BUFF_SIZE = 1024 * SYSTEM_PAGE_SIZE\<close>\<close>

definition CANARY_BUFF_SIZE :: "config \<Rightarrow> nat" where
  "CANARY_BUFF_SIZE cfg = 1024 * SYSTEM_PAGE_SIZE cfg"

text \<open>Modelled from the spec: \<^verbatim>\<open>INVALID_STR_ID\<close> is declared in the absent
  \<^verbatim>\<open>StringDictionary.h\<close>; the spec gives \<^verbatim>\<open>INVALID_STR_ID = -1\<close>.\<close>

definition INVALID_STR_ID :: int where
  "INVALID_STR_ID = - 1"

text \<open>The integer widths \<^verbatim>\<open>getOrAddBulk\<close> is instantiated at.\<close>

datatype int_type = UInt8 | UInt16 | Int32

text \<open>Conversion of an integer value to the type \<open>T\<close> (modular; two's complement for
  \<^verbatim>\<open>int32_t\<close>).\<close>

fun cast_to :: "int_type \<Rightarrow> int \<Rightarrow> int" where
  "cast_to UInt8 v = v mod 2 ^ 8"
| "cast_to UInt16 v = v mod 2 ^ 16"
| "cast_to Int32 v = sint (word_of_int v :: 32 word)"

text \<open>Modelled from the spec: \<^verbatim>\<open>inline_int_null_value<T>()\<close> and
  \<^verbatim>\<open>max_valid_int_value<T>()\<close> are templates of the absent \<^verbatim>\<open>Shared/sqltypes.h\<close>.
  The spec fixes the 32-bit null sentinel as the minimum signed value of the width. For
  the unsigned widths it only says that a new string is refused when
  \<^verbatim>\<open>str_count == max_valid<T>\<close> and that, for \<^verbatim>\<open>u8\<close>, 256 distinct strings give 255
  non-null codes and one null: so \<^verbatim>\<open>max_valid<u8>\<close> is 255, and the null sentinel is
  the one remaining 8-bit value, 255. The 16-bit values follow the same pattern.\<close>

fun inline_int_null_value :: "int_type \<Rightarrow> int" where
  "inline_int_null_value UInt8 = 255"
| "inline_int_null_value UInt16 = 65535"
| "inline_int_null_value Int32 = - (2 ^ 31)"

fun max_valid_int_value :: "int_type \<Rightarrow> int" where
  "max_valid_int_value UInt8 = 255"
| "max_valid_int_value UInt16 = 65535"
| "max_valid_int_value Int32 = 2 ^ 31 - 1"

text \<open>\<^verbatim>\<open>static_cast<int32_t>\<close> of a \<^verbatim>\<open>size_t\<close>, and conversion of an \<^verbatim>\<open>int32_t\<close>
  to \<^verbatim>\<open>size_t\<close>.\<close>

definition to_int32 :: "nat \<Rightarrow> int" where
  "to_int32 n = sint (word_of_nat n :: 32 word)"

definition to_size_t :: "int \<Rightarrow> nat" where
  "to_size_t i = nat (i mod 2 ^ 64)"

text \<open>Modelled from the spec: \<^verbatim>\<open>string_lt\<close> and \<^verbatim>\<open>string_eq\<close> are declared in the
  absent \<^verbatim>\<open>Utils/StringLike.h\<close>; the spec orders strings byte-wise lexicographically
  (bytes compared as unsigned values, a proper prefix first).\<close>

definition string_lt :: "str \<Rightarrow> str \<Rightarrow> bool" where
  "string_lt a b = (a < b)"

definition string_eq :: "str \<Rightarrow> str \<Rightarrow> bool" where
  "string_eq a b = (a = b)"

section \<open>Failures\<close>

text \<open>
  A failed \<^verbatim>\<open>CHECK\<close> aborts the process; an access outside a vector or a mapping is
  undefined behaviour, as is a division by zero; \<^verbatim>\<open>checked_open\<close> throws \<^verbatim>\<open>DictPayloadUnavailable\<close>. All
  are values of the model. A probe loop that never leaves is the value \<open>None\<close>.
\<close>

datatype fault = CheckFailed | OutOfBounds | DivideByZero | DictPayloadUnavailable

definition bindE :: "fault + 'a \<Rightarrow> ('a \<Rightarrow> fault + 'b) \<Rightarrow> fault + 'b" where
  "bindE m f = (case m of Inl e \<Rightarrow> Inl e | Inr x \<Rightarrow> f x)"

definition bindP :: "(fault + 'a) option \<Rightarrow> ('a \<Rightarrow> (fault + 'b) option) \<Rightarrow> (fault + 'b) option" where
  "bindP m f = (case m of None \<Rightarrow> None | Some (Inl e) \<Rightarrow> Some (Inl e) | Some (Inr x) \<Rightarrow> f x)"

fun mapE :: "('a \<Rightarrow> fault + 'b) \<Rightarrow> 'a list \<Rightarrow> fault + 'b list" where
  "mapE f [] = Inr []"
| "mapE f (x # xs) = bindE (f x) (\<lambda>y. bindE (mapE f xs) (\<lambda>ys. Inr (y # ys)))"

section \<open>The dictionary state\<close>

text \<open>Modelled from the spec: \<^verbatim>\<open>StringIdxEntry\<close> is declared in the absent
  \<^verbatim>\<open>StringDictionary.h\<close>; the spec gives an offset record
  \<^verbatim>\<open>{ payload_offset: u64, size }\<close> whose size field is 16 bits wide in the source, the
  value \<^verbatim>\<open>0xFFFF\<close> being the canary. Unwritten storage is filled with \<^verbatim>\<open>0xFF\<close> bytes,
  so an unwritten record has every bit set.\<close>

record StringIdxEntry =
  entry_off :: "64 word"
  entry_size :: "16 word"

definition canary_entry :: StringIdxEntry where
  "canary_entry = \<lparr>entry_off = - 1, entry_size = - 1\<rparr>"

text \<open>\<^verbatim>\<open>PayloadString\<close>: a pointer into the payload mapping (an offset from
  \<^verbatim>\<open>payload_map_\<close>; \<open>None\<close> is \<^verbatim>\<open>nullptr\<close>), a size and the canary flag.\<close>

record PayloadString =
  c_str_ptr :: "nat option"
  ps_size :: nat
  canary :: bool

text \<open>
  The members of \<^verbatim>\<open>StringDictionary\<close> (the trailing underscore of the member names is
  dropped). The two mappings are stores from positions to values, valid below
  \<open>payload_file_size\<close> bytes and \<open>offset_file_size\<close> bytes; for a persistent
  dictionary they are the contents of the two files (\<^verbatim>\<open>MAP_SHARED\<close>).
  \<open>compare_cache\<close> holds \<open>(pattern, index, diff)\<close>, most recently used first.
\<close>

record dict =
  str_count :: nat
  str_ids :: "int list"
  rk_hashes :: "32 word list"
  isTemp :: bool
  materialize_hashes :: bool
  payload_fd :: int
  offset_fd :: int
  offset_map :: "nat \<Rightarrow> StringIdxEntry"
  payload_map :: "nat \<Rightarrow> byte"
  offset_file_size :: nat
  payload_file_size :: nat
  payload_file_off :: nat
  like_cache :: "(str \<times> bool \<times> bool \<times> byte) \<rightharpoonup> int list"
  regex_cache :: "(str \<times> byte) \<rightharpoonup> int list"
  equal_cache :: "str \<rightharpoonup> int"
  compare_cache :: "(str \<times> int \<times> int) list"
  sorted_cache :: "int list"


section \<open>Storage\<close>

text \<open>\<^verbatim>\<open>addStorageCapacity\<close> (persistent) and \<^verbatim>\<open>addMemoryCapacity\<close> (temporary) both
  append \<open>CANARY_BUFF_SIZE\<close> bytes \<^verbatim>\<open>0xFF\<close> and add that amount to the size. The
  \<^verbatim>\<open>lseek\<close>, \<^verbatim>\<open>write\<close>, \<^verbatim>\<open>realloc\<close> and \<^verbatim>\<open>mmap\<close> calls are taken to succeed.\<close>

definition addPayloadCapacity :: "config \<Rightarrow> dict \<Rightarrow> dict" where
  "addPayloadCapacity cfg d =
     d\<lparr>payload_map := (\<lambda>i. if i < payload_file_size d then payload_map d i else 0xFF),
       payload_file_size := payload_file_size d + CANARY_BUFF_SIZE cfg\<rparr>"

text \<open>The offset mapping is read record by record: record \<open>i\<close> occupies the bytes
  from \<open>i * sizeof\<close>. A record that is not wholly below the old size has never been
  written, so after the growth all its bytes are \<^verbatim>\<open>0xFF\<close>.\<close>

definition addOffsetCapacity :: "config \<Rightarrow> dict \<Rightarrow> dict" where
  "addOffsetCapacity cfg d =
     d\<lparr>offset_map := (\<lambda>i. if (i + 1) * sizeof_StringIdxEntry cfg \<le> offset_file_size d
                            then offset_map d i else canary_entry),
       offset_file_size := offset_file_size d + CANARY_BUFF_SIZE cfg\<rparr>"

definition fds_checked :: "dict \<Rightarrow> bool" where
  "fds_checked d = (isTemp d \<or> (0 \<le> payload_fd d \<and> 0 \<le> offset_fd d))"

definition getStringFromStorage :: "config \<Rightarrow> dict \<Rightarrow> int \<Rightarrow> fault + PayloadString" where
  "getStringFromStorage cfg d string_id =
     (if \<not> fds_checked d then Inl CheckFailed
      else if \<not> 0 \<le> string_id then Inl CheckFailed
      else if offset_file_size d < (nat string_id + 1) * sizeof_StringIdxEntry cfg then Inl OutOfBounds
      else let str_meta = offset_map d (nat string_id) in
        if entry_size str_meta = 0xffff
        then Inr \<lparr>c_str_ptr = None, ps_size = 0, canary = True\<rparr>
        else Inr \<lparr>c_str_ptr = Some (unat (entry_off str_meta)),
                  ps_size = unat (entry_size str_meta), canary = False\<rparr>)"

text \<open>Reading \<open>n\<close> bytes at a pointer (\<^verbatim>\<open>memcmp\<close>, or the \<^verbatim>\<open>std::string(ptr, n)\<close>
  constructor).\<close>

definition read_payload :: "dict \<Rightarrow> nat option \<Rightarrow> nat \<Rightarrow> fault + str" where
  "read_payload d p n =
     (case p of
        None \<Rightarrow> if n = 0 then Inr [] else Inl OutOfBounds
      | Some a \<Rightarrow> if a + n \<le> payload_file_size d then Inr (map (payload_map d) [a..<a + n])
                  else Inl OutOfBounds)"

definition getStringChecked :: "config \<Rightarrow> dict \<Rightarrow> int \<Rightarrow> fault + str" where
  "getStringChecked cfg d string_id =
     bindE (getStringFromStorage cfg d string_id) (\<lambda>str_canary.
       if canary str_canary then Inl CheckFailed
       else read_payload d (c_str_ptr str_canary) (ps_size str_canary))"

definition getStringUnlocked :: "config \<Rightarrow> dict \<Rightarrow> int \<Rightarrow> fault + str" where
  "getStringUnlocked cfg d string_id =
     (if \<not> string_id < to_int32 (str_count d) then Inl CheckFailed
      else getStringChecked cfg d string_id)"

text \<open>\<^verbatim>\<open>getString\<close> of a local dictionary (\<^verbatim>\<open>client_\<close> is null).\<close>

definition getString :: "config \<Rightarrow> dict \<Rightarrow> int \<Rightarrow> fault + str" where
  "getString cfg d string_id = getStringUnlocked cfg d string_id"


text \<open>The bytes a comparator sees for an id: \<^verbatim>\<open>getStringFromStorage\<close> followed by a read
  of \<open>size\<close> bytes, the canary flag not being looked at.\<close>

definition fetch_string :: "config \<Rightarrow> dict \<Rightarrow> int \<Rightarrow> fault + str" where
  "fetch_string cfg d string_id =
     bindE (getStringFromStorage cfg d string_id) (\<lambda>s.
       read_payload d (c_str_ptr s) (ps_size s))"

definition write_payload :: "(nat \<Rightarrow> byte) \<Rightarrow> nat \<Rightarrow> str \<Rightarrow> (nat \<Rightarrow> byte)" where
  "write_payload m a bs = (\<lambda>i. if a \<le> i \<and> i < a + length bs then bs ! (i - a) else m i)"

definition appendToStorage :: "config \<Rightarrow> dict \<Rightarrow> str \<Rightarrow> fault + dict" where
  "appendToStorage cfg d str =
     (if \<not> fds_checked d then Inl CheckFailed
      else
        bindE (if payload_file_size d < payload_file_off d + length str
               then (let d' = addPayloadCapacity cfg d
                     in if \<not> isTemp d \<and> \<not> payload_file_off d' + length str \<le> payload_file_size d'
                        then Inl CheckFailed else Inr d')
               else Inr d) (\<lambda>d1.
        if payload_file_size d1 < payload_file_off d1 + length str then Inl OutOfBounds
        else
          let d2 = d1\<lparr>payload_map := write_payload (payload_map d1) (payload_file_off d1) str\<rparr>;
              offset_file_off = str_count d2 * sizeof_StringIdxEntry cfg;
              str_meta = \<lparr>entry_off = word_of_nat (payload_file_off d2),
                          entry_size = word_of_nat (length str)\<rparr>;
              d3 = d2\<lparr>payload_file_off := payload_file_off d2 + length str\<rparr>
          in
            bindE (if offset_file_size d3 \<le> offset_file_off + sizeof_StringIdxEntry cfg
                   then (let d' = addOffsetCapacity cfg d3
                         in if \<not> isTemp d \<and>
                               \<not> offset_file_off + sizeof_StringIdxEntry cfg \<le> offset_file_size d'
                            then Inl CheckFailed else Inr d')
                   else Inr d3) (\<lambda>d4.
            if offset_file_size d4 < offset_file_off + sizeof_StringIdxEntry cfg then Inl OutOfBounds
            else Inr (d4\<lparr>offset_map := (offset_map d4)(str_count d4 := str_meta)\<rparr>))))"

section \<open>Probing\<close>

text \<open>\<^verbatim>\<open>str.size() == old_str.size && !memcmp(str.c_str(), old_str.c_str_ptr, str.size())\<close>\<close>

definition same_string :: "config \<Rightarrow> dict \<Rightarrow> str \<Rightarrow> int \<Rightarrow> fault + bool" where
  "same_string cfg d str string_id =
     bindE (getStringFromStorage cfg d string_id) (\<lambda>old_str.
       if length str = ps_size old_str
       then bindE (read_payload d (c_str_ptr old_str) (length str)) (\<lambda>bs. Inr (str = bs))
       else Inr False)"

text \<open>The test of \<^verbatim>\<open>computeBucket\<close> on an occupied slot when \<^verbatim>\<open>unique\<close> is false.\<close>

definition slot_holds :: "config \<Rightarrow> dict \<Rightarrow> 32 word \<Rightarrow> str \<Rightarrow> int \<Rightarrow> fault + bool" where
  "slot_holds cfg d hash str string_id =
     (if materialize_hashes d then
        (if string_id < 0 \<or> length (rk_hashes d) \<le> nat string_id then Inl OutOfBounds
         else if hash = rk_hashes d ! nat string_id then same_string cfg d str string_id
         else Inr False)
      else same_string cfg d str string_id)"

text \<open>\<^verbatim>\<open>hash & (data.size() - 1)\<close> in \<^verbatim>\<open>size_t\<close>: for an empty vector the subtraction
  wraps to \<open>2^64 - 1\<close>.\<close>

definition first_bucket :: "32 word \<Rightarrow> nat \<Rightarrow> nat" where
  "first_bucket hash n = and (unat hash) (if n = 0 then 2 ^ 64 - 1 else n - 1)"

text \<open>\<^verbatim>\<open>if (++bucket == data.size()) bucket = 0\<close>\<close>

definition next_bucket :: "nat \<Rightarrow> nat \<Rightarrow> nat" where
  "next_bucket n bucket = (if bucket + 1 = n then 0 else bucket + 1)"

partial_function (option) computeBucket_loop ::
  "config \<Rightarrow> dict \<Rightarrow> 32 word \<Rightarrow> str \<Rightarrow> int list \<Rightarrow> bool \<Rightarrow> nat \<Rightarrow> (fault + nat) option" where
  "computeBucket_loop cfg d hash str data unique bucket =
     (if length data \<le> bucket then Some (Inl OutOfBounds)
      else if data ! bucket = INVALID_STR_ID then Some (Inr bucket)
      else (case (if \<not> unique then slot_holds cfg d hash str (data ! bucket) else Inr False) of
              Inl e \<Rightarrow> Some (Inl e)
            | Inr found \<Rightarrow>
                if found then Some (Inr bucket)
                else computeBucket_loop cfg d hash str data unique
                       (next_bucket (length data) bucket)))"

declare computeBucket_loop.simps [code]

text \<open>The loop variable is a \<^verbatim>\<open>size_t\<close>; the function returns it as \<^verbatim>\<open>uint32_t\<close>.\<close>

definition computeBucket ::
  "config \<Rightarrow> dict \<Rightarrow> 32 word \<Rightarrow> str \<Rightarrow> int list \<Rightarrow> bool \<Rightarrow> (fault + nat) option" where
  "computeBucket cfg d hash str data unique =
     bindP (computeBucket_loop cfg d hash str data unique (first_bucket hash (length data)))
       (\<lambda>bucket. Some (Inr (bucket mod 2 ^ 32)))"

partial_function (option) computeUniqueBucketWithHash_loop ::
  "int list \<Rightarrow> nat \<Rightarrow> (fault + nat) option" where
  "computeUniqueBucketWithHash_loop data bucket =
     (if length data \<le> bucket then Some (Inl OutOfBounds)
      else if data ! bucket = INVALID_STR_ID then Some (Inr bucket)
      else computeUniqueBucketWithHash_loop data (next_bucket (length data) bucket))"

declare computeUniqueBucketWithHash_loop.simps [code]

definition computeUniqueBucketWithHash :: "32 word \<Rightarrow> int list \<Rightarrow> (fault + nat) option" where
  "computeUniqueBucketWithHash hash data =
     bindP (computeUniqueBucketWithHash_loop data (first_bucket hash (length data)))
       (\<lambda>bucket. Some (Inr (bucket mod 2 ^ 32)))"


section \<open>Ingestion\<close>

definition fillRateIsHigh :: "dict \<Rightarrow> bool" where
  "fillRateIsHigh d = (length (str_ids d) < str_count d * 2)"

text \<open>The loop of \<^verbatim>\<open>increaseCapacity\<close> over the slots of the old table when hashes are
  materialized, and over the ids \<open>0..str_count-1\<close> otherwise. A bucket returned by a
  probe is below \<^verbatim>\<open>data.size()\<close>, so the store into the new vector is in range.\<close>

fun rehash_slots :: "dict \<Rightarrow> int list \<Rightarrow> int list \<Rightarrow> (fault + int list) option" where
  "rehash_slots d [] new_str_ids = Some (Inr new_str_ids)"
| "rehash_slots d (string_id # rest) new_str_ids =
     (if string_id \<noteq> INVALID_STR_ID then
        (if string_id < 0 \<or> length (rk_hashes d) \<le> nat string_id then Some (Inl OutOfBounds)
         else bindP (computeUniqueBucketWithHash (rk_hashes d ! nat string_id) new_str_ids)
                (\<lambda>bucket. rehash_slots d rest (new_str_ids[bucket := string_id])))
      else rehash_slots d rest new_str_ids)"

fun rehash_ids :: "config \<Rightarrow> dict \<Rightarrow> nat list \<Rightarrow> int list \<Rightarrow> (fault + int list) option" where
  "rehash_ids cfg d [] new_str_ids = Some (Inr new_str_ids)"
| "rehash_ids cfg d (i # rest) new_str_ids =
     bindP (Some (getStringChecked cfg d (to_int32 i))) (\<lambda>str.
     bindP (computeUniqueBucketWithHash (rk_hash str) new_str_ids) (\<lambda>bucket.
       rehash_ids cfg d rest (new_str_ids[bucket := to_int32 i])))"

definition increaseCapacity :: "config \<Rightarrow> dict \<Rightarrow> (fault + dict) option" where
  "increaseCapacity cfg d =
     (let new_str_ids = replicate (length (str_ids d) * 2) INVALID_STR_ID in
      if materialize_hashes d then
        bindP (rehash_slots d (str_ids d) new_str_ids) (\<lambda>new_str_ids.
          Some (Inr (d\<lparr>rk_hashes := rk_hashes d @ replicate (length (rk_hashes d)) 0,
                        str_ids := new_str_ids\<rparr>)))
      else
        bindP (rehash_ids cfg d [0..<str_count d] new_str_ids) (\<lambda>new_str_ids.
          Some (Inr (d\<lparr>str_ids := new_str_ids\<rparr>))))"

text \<open>Modelled from the spec: \<^verbatim>\<open>compare_cache_.invalidateInvertedIndex()\<close> is a member
  of the absent cache class; the spec says an insert invalidates the scan caches.\<close>

definition invalidateInvertedIndex :: "dict \<Rightarrow> dict" where
  "invalidateInvertedIndex d =
     d\<lparr>like_cache := Map.empty, regex_cache := Map.empty, equal_cache := Map.empty,
       compare_cache := []\<rparr>"

text \<open>The part shared by \<^verbatim>\<open>getOrAddImpl\<close> and \<^verbatim>\<open>getOrAddBulk\<close> once the probed slot
  is empty: the \<^verbatim>\<open>MAX_STRCOUNT\<close> check, the resize, the append and the installation
  of the new id. It yields the new state and the bucket.\<close>

definition add_record ::
  "config \<Rightarrow> dict \<Rightarrow> 32 word \<Rightarrow> str \<Rightarrow> nat \<Rightarrow> (fault + dict \<times> nat) option" where
  "add_record cfg d hash str bucket =
     (if \<not> str_count d < MAX_STRCOUNT cfg then Some (Inl CheckFailed)
      else
        bindP (if fillRateIsHigh d
               then bindP (increaseCapacity cfg d) (\<lambda>d'.
                      bindP (computeBucket cfg d' hash str (str_ids d') False) (\<lambda>bucket'.
                        Some (Inr (d', bucket'))))
               else Some (Inr (d, bucket))) (\<lambda>(d1, bucket).
        bindP (Some (appendToStorage cfg d1 str)) (\<lambda>d2.
          let d3 = d2\<lparr>str_ids := (str_ids d2)[bucket := to_int32 (str_count d2)]\<rparr> in
          if materialize_hashes d3 \<and> length (rk_hashes d3) \<le> str_count d3
          then Some (Inl OutOfBounds)
          else
            let d4 = (if materialize_hashes d3
                      then d3\<lparr>rk_hashes := (rk_hashes d3)[str_count d3 := hash]\<rparr> else d3)
            in Some (Inr (d4\<lparr>str_count := str_count d4 + 1\<rparr>, bucket)))))"

text \<open>\<^verbatim>\<open>getOrAddImpl\<close>: the probe under the shared lock, and the second probe under the
  exclusive lock; in a sequential run both see the same table.\<close>

definition getOrAddImpl :: "config \<Rightarrow> dict \<Rightarrow> str \<Rightarrow> (fault + dict \<times> int) option" where
  "getOrAddImpl cfg d str =
     (if length str = 0 then Some (Inr (d, inline_int_null_value Int32))
      else if \<not> length str \<le> MAX_STRLEN cfg then Some (Inl CheckFailed)
      else
        let hash = rk_hash str in
        bindP (computeBucket cfg d hash str (str_ids d) False) (\<lambda>bucket.
          if str_ids d ! bucket \<noteq> INVALID_STR_ID then Some (Inr (d, str_ids d ! bucket))
          else
            bindP (computeBucket cfg d hash str (str_ids d) False) (\<lambda>bucket.
              if str_ids d ! bucket = INVALID_STR_ID then
                bindP (add_record cfg d hash str bucket) (\<lambda>(d', bucket).
                  let d'' = invalidateInvertedIndex d' in
                  Some (Inr (d'', str_ids d'' ! bucket)))
              else Some (Inr (d, str_ids d ! bucket)))))"

text \<open>\<^verbatim>\<open>getOrAdd\<close> of a local dictionary (\<^verbatim>\<open>client_\<close> is null).\<close>

definition getOrAdd :: "config \<Rightarrow> dict \<Rightarrow> str \<Rightarrow> (fault + dict \<times> int) option" where
  "getOrAdd cfg d str = getOrAddImpl cfg d str"

text \<open>One iteration of the loop of \<^verbatim>\<open>getOrAddBulk<T>\<close>; the codes written so far are
  \<open>encoded_vec\<close>, and \<^verbatim>\<open>encoded_vec[out_idx++] = v\<close> appends \<open>v\<close> converted to \<open>T\<close>.\<close>

definition getOrAddBulk_step ::
  "config \<Rightarrow> int_type \<Rightarrow> dict \<times> int list \<Rightarrow> str \<Rightarrow> (fault + dict \<times> int list) option" where
  "getOrAddBulk_step cfg T st str =
     (let d = fst st; encoded_vec = snd st in
      if str = [] then Some (Inr (d, encoded_vec @ [cast_to T (inline_int_null_value T)]))
      else if \<not> length str \<le> MAX_STRLEN cfg then Some (Inl CheckFailed)
      else
        let hash = rk_hash str in
        bindP (computeBucket cfg d hash str (str_ids d) False) (\<lambda>bucket.
          if str_ids d ! bucket \<noteq> INVALID_STR_ID
          then Some (Inr (d, encoded_vec @ [cast_to T (str_ids d ! bucket)]))
          else if str_count d = to_size_t (max_valid_int_value T)
          then Some (Inr (d, encoded_vec @ [cast_to T (inline_int_null_value T)]))
          else
            bindP (if str_ids d ! bucket = INVALID_STR_ID
                   then add_record cfg d hash str bucket
                   else Some (Inr (d, bucket))) (\<lambda>(d', bucket).
              Some (Inr (d', encoded_vec @ [cast_to T (str_ids d' ! bucket)])))))"

fun getOrAddBulk_loop ::
  "config \<Rightarrow> int_type \<Rightarrow> dict \<times> int list \<Rightarrow> str list \<Rightarrow> (fault + dict \<times> int list) option" where
  "getOrAddBulk_loop cfg T st [] = Some (Inr st)"
| "getOrAddBulk_loop cfg T st (str # rest) =
     bindP (getOrAddBulk_step cfg T st str) (\<lambda>st'. getOrAddBulk_loop cfg T st' rest)"

text \<open>\<^verbatim>\<open>getOrAddBulk<T>\<close> of a local dictionary: the loop, then one invalidation of the
  scan caches. The result is the new state and the codes written to the buffer.\<close>

definition getOrAddBulk ::
  "config \<Rightarrow> int_type \<Rightarrow> dict \<Rightarrow> str list \<Rightarrow> (fault + dict \<times> int list) option" where
  "getOrAddBulk cfg T d string_vec =
     bindP (getOrAddBulk_loop cfg T (d, []) string_vec) (\<lambda>(d', encoded_vec).
       Some (Inr (invalidateInvertedIndex d', encoded_vec)))"




section \<open>Opening a dictionary and recovery\<close>

definition round_up_p2 :: "64 word \<Rightarrow> 64 word" where
  "round_up_p2 num =
     (let in0 = num - 1;
          in1 = in0 OR drop_bit 1 in0;
          in2 = in1 OR drop_bit 2 in1;
          in3 = in2 OR drop_bit 4 in2;
          in4 = in3 OR drop_bit 8 in3;
          in5 = in4 OR drop_bit 16 in4;
          in6 = in5 + 1
      in if in6 = 0 \<or> in6 > 0xFFFFFFFF then 0xFFFFFFFF else in6)"

text \<open>
  What the constructor finds in the folder: the results of the two \<^verbatim>\<open>open\<close> calls and
  the contents of the files \<^verbatim>\<open>DictPayload\<close> and \<^verbatim>\<open>DictOffsets\<close> (empty files when
  they did not exist: \<^verbatim>\<open>O_CREAT\<close>).
\<close>

record folder =
  payload_open :: int
  offset_open :: int
  DictPayload_size :: nat
  DictPayload :: "nat \<Rightarrow> byte"
  DictOffsets_size :: nat
  DictOffsets :: "nat \<Rightarrow> StringIdxEntry"

definition checked_open :: "int \<Rightarrow> fault + int" where
  "checked_open fd = (if 0 < fd then Inr fd else Inl DictPayloadUnavailable)"

text \<open>The body of one recovery worker over its ids: it stops at the first canary.\<close>

fun recover_chunk ::
  "config \<Rightarrow> dict \<Rightarrow> nat list \<Rightarrow> (32 word \<times> nat) list \<Rightarrow> fault + (32 word \<times> nat) list" where
  "recover_chunk cfg d [] hashVec = Inr hashVec"
| "recover_chunk cfg d (curr_id # rest) hashVec =
     bindE (getStringFromStorage cfg d (to_int32 curr_id)) (\<lambda>recovered.
       if canary recovered then Inr hashVec
       else bindE (read_payload d (c_str_ptr recovered) (ps_size recovered)) (\<lambda>temp.
              recover_chunk cfg d rest (hashVec @ [(rk_hash temp, length temp)])))"

fun install_hashes :: "dict \<Rightarrow> (32 word \<times> nat) list \<Rightarrow> (fault + dict) option" where
  "install_hashes d [] = Some (Inr d)"
| "install_hashes d (hash # rest) =
     bindP (computeUniqueBucketWithHash (fst hash) (str_ids d)) (\<lambda>bucket.
       let d1 = d\<lparr>payload_file_off := payload_file_off d + snd hash,
                   str_ids := (str_ids d)[bucket := to_int32 (str_count d)]\<rparr> in
       if materialize_hashes d1 \<and> length (rk_hashes d1) \<le> str_count d1
       then Some (Inl OutOfBounds)
       else
         let d2 = (if materialize_hashes d1
                   then d1\<lparr>rk_hashes := (rk_hashes d1)[str_count d1 := fst hash]\<rparr> else d1)
         in install_hashes (d2\<lparr>str_count := str_count d2 + 1\<rparr>) rest)"

text \<open>\<^verbatim>\<open>processDictionaryFutures\<close>: the futures are waited for in the order of their
  submission; a worker that failed a check has aborted the process.\<close>

fun processDictionaryFutures ::
  "dict \<Rightarrow> (fault + (32 word \<times> nat) list) list \<Rightarrow> (fault + dict) option" where
  "processDictionaryFutures d [] = Some (Inr d)"
| "processDictionaryFutures d (dictionary_future # rest) =
     bindP (Some dictionary_future) (\<lambda>hashVec.
     bindP (install_hashes d hashVec) (\<lambda>d'. processDictionaryFutures d' rest))"

text \<open>The loop of the constructor over the first ids of the chunks
  (\<open>string_id = 0, items_per_thread, 2 * items_per_thread, ...\<close> below \<open>str_count\<close>).
  The workers read the two mappings only, which the installation does not change.\<close>

fun recover_loop ::
  "config \<Rightarrow> dict \<Rightarrow> nat \<Rightarrow> nat \<Rightarrow> nat \<Rightarrow> nat list \<Rightarrow> nat \<Rightarrow>
   (fault + (32 word \<times> nat) list) list \<Rightarrow> (fault + dict) option" where
  "recover_loop cfg d n items_per_thread thread_count [] thread_inits dictionary_futures =
     (if dictionary_futures \<noteq> [] then processDictionaryFutures d dictionary_futures
      else Some (Inr d))"
| "recover_loop cfg d n items_per_thread thread_count (string_id # rest) thread_inits
       dictionary_futures =
     (let futures' = dictionary_futures @
            [recover_chunk cfg d [string_id..<min (string_id + items_per_thread) n] []];
          thread_inits' = thread_inits + 1
      in if thread_inits' mod thread_count = 0
         then bindP (processDictionaryFutures d futures') (\<lambda>d'.
                recover_loop cfg d' n items_per_thread thread_count rest thread_inits' [])
         else recover_loop cfg d n items_per_thread thread_count rest thread_inits' futures')"

definition chunk_starts :: "nat \<Rightarrow> nat \<Rightarrow> nat list" where
  "chunk_starts n items_per_thread =
     map (\<lambda>k. k * items_per_thread) [0..<(n + items_per_thread - 1) div items_per_thread]"

definition recover_index :: "config \<Rightarrow> dict \<Rightarrow> (fault + dict) option" where
  "recover_index cfg d =
     (let bytes = offset_file_size d;
          n = bytes div sizeof_StringIdxEntry cfg;
          max_entries = unat (round_up_p2 (word_of_nat (n * 2 + 1)));
          d1 = d\<lparr>str_ids := replicate max_entries INVALID_STR_ID\<rparr>;
          d2 = (if materialize_hashes d1
                then d1\<lparr>rk_hashes := replicate (max_entries div 2) 0\<rparr> else d1);
          thread_count = hardware_concurrency cfg
      in if thread_count = 0 then Some (Inl DivideByZero)
         else
           let items_per_thread = max 2000 (min 200000 ((n div thread_count + 1) mod 2 ^ 32))
           in recover_loop cfg d2 n items_per_thread thread_count
                (chunk_starts n items_per_thread) 0 [])"

definition empty_dict :: "bool \<Rightarrow> bool \<Rightarrow> nat \<Rightarrow> dict" where
  "empty_dict isTemp' materializeHashes initial_capacity =
     \<lparr>str_count = 0,
      str_ids = replicate initial_capacity INVALID_STR_ID,
      rk_hashes = replicate initial_capacity 0,
      isTemp = isTemp',
      materialize_hashes = materializeHashes,
      payload_fd = - 1,
      offset_fd = - 1,
      offset_map = (\<lambda>i. canary_entry),
      payload_map = (\<lambda>i. 0xFF),
      offset_file_size = 0,
      payload_file_size = 0,
      payload_file_off = 0,
      like_cache = Map.empty,
      regex_cache = Map.empty,
      equal_cache = Map.empty,
      compare_cache = [],
      sorted_cache = []\<rparr>"

text \<open>Opening the two files: \<^verbatim>\<open>O_TRUNC\<close> empties them unless \<open>recover\<close> is set.\<close>

definition open_files :: "dict \<Rightarrow> folder \<Rightarrow> bool \<Rightarrow> fault + dict" where
  "open_files d f recover =
     bindE (checked_open (payload_open f)) (\<lambda>pfd.
     bindE (checked_open (offset_open f)) (\<lambda>ofd.
       Inr (d\<lparr>payload_fd := pfd, offset_fd := ofd,
              payload_map := DictPayload f, offset_map := DictOffsets f,
              payload_file_size := (if recover then DictPayload_size f else 0),
              offset_file_size := (if recover then DictOffsets_size f else 0)\<rparr>)))"

text \<open>The constructor \<^verbatim>\<open>StringDictionary(folder, isTemp, recover, materializeHashes,
  initial_capacity)\<close>; \<open>None\<close> for the folder is the empty folder name.\<close>

definition StringDictionary ::
  "config \<Rightarrow> folder option \<Rightarrow> bool \<Rightarrow> bool \<Rightarrow> bool \<Rightarrow> nat \<Rightarrow> (fault + dict) option" where
  "StringDictionary cfg folder' isTemp' recover materializeHashes initial_capacity =
     (let d0 = empty_dict isTemp' materializeHashes initial_capacity in
      if \<not> isTemp' \<and> folder' = None then Some (Inr d0)
      else if and initial_capacity (if initial_capacity = 0 then 2 ^ 64 - 1 else initial_capacity - 1) \<noteq> 0
      then Some (Inl CheckFailed)
      else
        bindP (Some (case folder' of
                       Some f \<Rightarrow> if \<not> isTemp' then open_files d0 f recover else Inr d0
                     | None \<Rightarrow> Inr d0)) (\<lambda>d1.
          let d2 = (if payload_file_size d1 = 0 then addPayloadCapacity cfg d1 else d1);
              d3 = (if offset_file_size d2 = 0 then addOffsetCapacity cfg d2 else d2)
          in if \<not> isTemp' \<and> recover then recover_index cfg d3 else Some (Inr d3)))"




section \<open>Scans\<close>

text \<open>One scan worker: \<^verbatim>\<open>for (size_t string_id = worker_idx; string_id < generation;
  string_id += worker_count)\<close>, collecting the ids whose string passes the test.\<close>

function scan_worker ::
  "config \<Rightarrow> dict \<Rightarrow> (str \<Rightarrow> bool) \<Rightarrow> nat \<Rightarrow> nat \<Rightarrow> nat \<Rightarrow> int list \<Rightarrow> fault + int list" where
  "scan_worker cfg d test worker_count generation string_id acc =
     (if string_id < generation \<and> 0 < worker_count then
        (case getStringUnlocked cfg d (to_int32 string_id) of
           Inl e \<Rightarrow> Inl e
         | Inr s \<Rightarrow>
             scan_worker cfg d test worker_count generation (string_id + worker_count)
               (if test s then acc @ [to_int32 string_id] else acc))
      else Inr acc)"
  by pat_completeness auto
termination
  by (relation "measure (\<lambda>(cfg, d, test, worker_count, generation, string_id, acc).
        generation - string_id)") auto

declare scan_worker.simps [simp del]

text \<open>The workers are joined and their results concatenated in worker order.\<close>

fun scan_workers ::
  "config \<Rightarrow> dict \<Rightarrow> (str \<Rightarrow> bool) \<Rightarrow> nat \<Rightarrow> nat \<Rightarrow> nat list \<Rightarrow> fault + int list" where
  "scan_workers cfg d test worker_count generation [] = Inr []"
| "scan_workers cfg d test worker_count generation (worker_idx # rest) =
     bindE (scan_worker cfg d test worker_count generation worker_idx []) (\<lambda>worker_result.
     bindE (scan_workers cfg d test worker_count generation rest) (\<lambda>result.
       Inr (worker_result @ result)))"

definition parallel_scan :: "config \<Rightarrow> dict \<Rightarrow> (str \<Rightarrow> bool) \<Rightarrow> nat \<Rightarrow> fault + int list" where
  "parallel_scan cfg d test generation =
     (let worker_count = cpu_threads cfg in
      if \<not> 0 < worker_count then Inl CheckFailed
      else if \<not> generation \<le> str_count d then Inl CheckFailed
      else scan_workers cfg d test worker_count generation [0..<worker_count])"

definition getLike ::
  "config \<Rightarrow> dict \<Rightarrow> str \<Rightarrow> bool \<Rightarrow> bool \<Rightarrow> byte \<Rightarrow> nat \<Rightarrow> fault + dict \<times> int list" where
  "getLike cfg d pattern icase is_simple escape generation =
     (let cache_key = (pattern, icase, is_simple, escape) in
      case like_cache d cache_key of
        Some v \<Rightarrow> Inr (d, v)
      | None \<Rightarrow>
          bindE (parallel_scan cfg d (\<lambda>str. is_like cfg str pattern icase is_simple escape)
                   generation) (\<lambda>result.
            Inr (d\<lparr>like_cache := (like_cache d)(cache_key \<mapsto> result)\<rparr>, result)))"

text \<open>\<^verbatim>\<open>for (int32_t idx = 0; idx <= cur_size; idx++) { if (idx == eq_id) continue;
  result.push_back(idx); }\<close>\<close>

definition ids_except :: "int \<Rightarrow> int \<Rightarrow> int list" where
  "ids_except cur_size eq_id = filter (\<lambda>idx. idx \<noteq> eq_id) [0..cur_size]"

definition getEquals ::
  "config \<Rightarrow> dict \<Rightarrow> str \<Rightarrow> string \<Rightarrow> nat \<Rightarrow> fault + dict \<times> int list" where
  "getEquals cfg d pattern comp_operator generation =
     (let eq_id0 = cast_to Int32 (int (MAX_STRLEN cfg) + 1);
          cur_size = to_int32 (str_count d)
      in case equal_cache d pattern of
           Some eq_id \<Rightarrow>
             if comp_operator = ''='' then Inr (d, [eq_id])
             else Inr (d, ids_except cur_size eq_id)
         | None \<Rightarrow>
             bindE (parallel_scan cfg d (\<lambda>str. str = pattern) generation) (\<lambda>result.
               let d' = (if 0 < length result
                         then d\<lparr>equal_cache := (equal_cache d)(pattern \<mapsto> result ! 0)\<rparr> else d);
                   eq_id = (if 0 < length result then result ! 0 else eq_id0)
               in if comp_operator = ''<>'' then Inr (d', result @ ids_except cur_size eq_id)
                  else Inr (d', result)))"

text \<open>\<^verbatim>\<open>sortCache\<close>: \<^verbatim>\<open>std::sort\<close> with \<^verbatim>\<open>string_lt\<close> on the stored strings as the
  order. The strings of all ids are fetched first, so a failing read is a failure of the
  whole call.\<close>

definition sortCache :: "config \<Rightarrow> dict \<Rightarrow> int list \<Rightarrow> fault + int list" where
  "sortCache cfg d cache =
     bindE (mapE (fetch_string cfg d) cache) (\<lambda>strs.
       Inr (map snd (sort_key fst (zip strs cache))))"

text \<open>The two-pointer walk of \<^verbatim>\<open>mergeSortedCache\<close> over \<open>(string, id)\<close> pairs: the
  element of the temporary cache goes first only when its string is smaller.\<close>

fun merge_caches :: "(str \<times> int) list \<Rightarrow> (str \<times> int) list \<Rightarrow> (str \<times> int) list" where
  "merge_caches [] ss = ss"
| "merge_caches ts [] = ts"
| "merge_caches (t # ts) (s # ss) =
     (if string_lt (fst t) (fst s) then t # merge_caches ts (s # ss)
      else s # merge_caches (t # ts) ss)"

definition mergeSortedCache :: "config \<Rightarrow> dict \<Rightarrow> int list \<Rightarrow> fault + dict" where
  "mergeSortedCache cfg d temp_sorted_cache =
     bindE (mapE (fetch_string cfg d) temp_sorted_cache) (\<lambda>t_strings.
     bindE (mapE (fetch_string cfg d) (sorted_cache d)) (\<lambda>s_strings.
       Inr (d\<lparr>sorted_cache :=
                map snd (merge_caches (zip t_strings temp_sorted_cache)
                                      (zip s_strings (sorted_cache d)))\<rparr>)))"

definition buildSortedCache :: "config \<Rightarrow> dict \<Rightarrow> fault + dict" where
  "buildSortedCache cfg d =
     (let cur_cache_size = length (sorted_cache d);
          temp_sorted_cache = map to_int32 [cur_cache_size..<str_count d]
      in bindE (sortCache cfg d temp_sorted_cache) (\<lambda>temp_sorted_cache.
           mergeSortedCache cfg d temp_sorted_cache))"

text \<open>Modelled from the spec: the class of \<^verbatim>\<open>compare_cache_\<close> and the struct
  \<^verbatim>\<open>compare_cache_value_t\<close> are declared in absent headers; the spec describes an
  LRU-bounded map from a pattern to an \<open>{index, diff}\<close> pair. \<open>get\<close> moves the entry
  found to the front, \<open>put\<close> adds at the front and drops what exceeds the capacity.\<close>

definition compare_cache_get :: "dict \<Rightarrow> str \<Rightarrow> dict \<times> (int \<times> int) option" where
  "compare_cache_get d pattern =
     (case map_of (compare_cache d) pattern of
        None \<Rightarrow> (d, None)
      | Some v \<Rightarrow>
          (d\<lparr>compare_cache := (pattern, v) # filter (\<lambda>e. fst e \<noteq> pattern) (compare_cache d)\<rparr>,
           Some v))"

definition compare_cache_put :: "config \<Rightarrow> dict \<Rightarrow> str \<Rightarrow> int \<times> int \<Rightarrow> dict" where
  "compare_cache_put cfg d pattern v =
     d\<lparr>compare_cache :=
         take (compare_cache_capacity cfg)
           ((pattern, v) # filter (\<lambda>e. fst e \<noteq> pattern) (compare_cache d))\<rparr>"

text \<open>The search of \<^verbatim>\<open>getCompare\<close> on a cache miss. \<^verbatim>\<open>std::lower_bound\<close> returns the
  first position of the sorted cache whose string is not below the pattern.\<close>

definition search_sorted_cache :: "config \<Rightarrow> dict \<Rightarrow> str \<Rightarrow> fault + int \<times> int" where
  "search_sorted_cache cfg d pattern =
     bindE (mapE (fetch_string cfg d) (sorted_cache d)) (\<lambda>strs.
       let cache_itr = length (takeWhile (\<lambda>a_str. string_lt a_str pattern) strs) in
       if cache_itr = length (sorted_cache d)
       then Inr (to_int32 (if sorted_cache d = [] then 2 ^ 64 - 1
                           else length (sorted_cache d) - 1), 1)
       else if \<not> string_eq (strs ! cache_itr) pattern
       then Inr (cast_to Int32 (int cache_itr - 1), 1)
       else Inr (cast_to Int32 (int cache_itr), 0))"

text \<open>\<^verbatim>\<open>for (size_t i = from; i < to; i++) ret.push_back(sorted_cache[i])\<close>\<close>

definition cache_range :: "dict \<Rightarrow> nat \<Rightarrow> nat \<Rightarrow> fault + int list" where
  "cache_range d from to =
     (if from < to \<and> length (sorted_cache d) < to then Inl OutOfBounds
      else Inr (drop from (take to (sorted_cache d))))"

text \<open>The branches of \<^verbatim>\<open>getCompare\<close> on the operator, given the cached pair.\<close>

definition compare_result :: "dict \<Rightarrow> string \<Rightarrow> int \<times> int \<Rightarrow> fault + int list" where
  "compare_result d comp_operator cache_index =
     (let index = fst cache_index; diff = snd cache_index; n = length (sorted_cache d) in
      if comp_operator = ''<'' then
        (let idx = (if diff \<noteq> 0
                    then (if index = 0 \<and> 0 < diff then to_size_t index else to_size_t (index + 1))
                    else to_size_t index)
         in cache_range d 0 idx)
      else if comp_operator = ''<='' then
        (let idx = to_size_t (index + 1) in cache_range d 0 idx)
      else if comp_operator = ''>'' then
        (let idx = (if index = 0 \<and> 0 < diff then to_size_t index else to_size_t (index + 1))
         in cache_range d idx n)
      else if comp_operator = ''>='' then
        (let idx = (if diff \<noteq> 0
                    then (if index = 0 \<and> 0 < diff then to_size_t index else to_size_t (index + 1))
                    else to_size_t index)
         in cache_range d idx n)
      else if comp_operator = ''='' then
        (if diff = 0 then
           (if index < 0 \<or> n \<le> nat index then Inl OutOfBounds
            else Inr [sorted_cache d ! nat index])
         else Inr [])
      else if comp_operator = ''<>'' then
        (if diff = 0 then
           (let idx = to_size_t index in
            bindE (cache_range d 0 idx) (\<lambda>below.
            bindE (cache_range d (idx + 1) n) (\<lambda>above. Inr (below @ above))))
         else Inr (concat (replicate n (sorted_cache d))))
      else Inr [])"

definition getCompare ::
  "config \<Rightarrow> dict \<Rightarrow> str \<Rightarrow> string \<Rightarrow> nat \<Rightarrow> fault + dict \<times> int list" where
  "getCompare cfg d pattern comp_operator generation =
     (if str_count d = 0 then Inr (d, [])
      else if length (sorted_cache d) < str_count d \<and>
              (comp_operator = ''='' \<or> comp_operator = ''<>'')
      then getEquals cfg d pattern comp_operator generation
      else
        bindE (if length (sorted_cache d) < str_count d then buildSortedCache cfg d else Inr d)
          (\<lambda>d1.
        bindE (case compare_cache_get d1 pattern of
                 (d2, Some cache_index) \<Rightarrow> Inr (d2, cache_index)
               | (d2, None) \<Rightarrow>
                   bindE (search_sorted_cache cfg d2 pattern) (\<lambda>cache_index.
                     Inr (compare_cache_put cfg d2 pattern cache_index, cache_index)))
          (\<lambda>(d3, cache_index).
        bindE (compare_result d3 comp_operator cache_index) (\<lambda>ret. Inr (d3, ret)))))"


section \<open>A concrete configuration and run\<close>

text \<open>
  The bounds of a 64-bit Linux build: strings of at most \<open>2^15 - 1\<close> bytes, at most
  \<open>2^31 - 1\<close> strings, pages of 4096 bytes, offset records of 8 bytes, four threads.
  The LIKE predicate of the example is prefix matching.
\<close>

definition example_cfg :: config where
  "example_cfg =
     \<lparr>MAX_STRLEN = 32767, MAX_STRCOUNT = 2147483647, SYSTEM_PAGE_SIZE = 4096,
      sizeof_StringIdxEntry = 8, cpu_threads = 4, hardware_concurrency = 4,
      compare_cache_capacity = 16,
      is_like = (\<lambda>str pattern icase is_simple escape. take (length pattern) str = pattern)\<rparr>"

text \<open>Calling \<^verbatim>\<open>getOrAdd\<close> on a list of strings in order, collecting the ids.\<close>

fun getOrAdd_all ::
  "config \<Rightarrow> dict \<Rightarrow> str list \<Rightarrow> (fault + dict \<times> int list) option" where
  "getOrAdd_all cfg d [] = Some (Inr (d, []))"
| "getOrAdd_all cfg d (str # rest) =
     bindP (getOrAdd cfg d str) (\<lambda>(d', string_id).
     bindP (getOrAdd_all cfg d' rest) (\<lambda>(d'', ids). Some (Inr (d'', string_id # ids))))"

text \<open>A temporary dictionary of the given capacity into which the strings have been
  inserted one by one.\<close>

definition temp_dict_with :: "config \<Rightarrow> bool \<Rightarrow> nat \<Rightarrow> str list \<Rightarrow> (fault + dict \<times> int list) option" where
  "temp_dict_with cfg materializeHashes initial_capacity strs =
     bindP (StringDictionary cfg None True False materializeHashes initial_capacity) (\<lambda>d.
       getOrAdd_all cfg d strs)"




text \<open>\<^verbatim>\<open>getCompare\<close> calls \<open>(pattern, operator, generation)\<close> made one after the
  other, and the vectors they return.\<close>

fun getCompare_all ::
  "config \<Rightarrow> dict \<Rightarrow> (str \<times> string \<times> nat) list \<Rightarrow> fault + dict \<times> int list list" where
  "getCompare_all cfg d [] = Inr (d, [])"
| "getCompare_all cfg d (c # rest) =
     bindE (getCompare cfg d (fst c) (fst (snd c)) (snd (snd c))) (\<lambda>(d', ret).
     bindE (getCompare_all cfg d' rest) (\<lambda>(d'', rets). Inr (d'', ret # rets)))"

definition returned :: "fault + dict \<times> 'a \<Rightarrow> fault + 'a" where
  "returned r = map_sum id snd r"


text \<open>The bound the index keeps: its length is a power of two and exceeds twice the
  number of strings by no less than \<open>-2\<close>.\<close>

definition fill_bound :: "dict \<Rightarrow> bool" where
  "fill_bound d =
     ((\<exists>m. length (str_ids d) = 2 ^ m) \<and> 2 * str_count d \<le> length (str_ids d) + 2)"

text \<open>The example dictionary: temporary, capacity 4, holding \<open>"a"\<close> and \<open>"ab"\<close>.\<close>

definition example_dict :: dict where
  "example_dict =
     (case temp_dict_with example_cfg False 4 [[0x61], [0x61, 0x62]] of
        Some (Inr (d, ids)) \<Rightarrow> d
      | _ \<Rightarrow> empty_dict True False 0)"

text \<open>The state of the example dictionary, written out.\<close>

definition example_state :: dict where
  "example_state =
     \<lparr>str_count = 2,
      str_ids = [1, - 1, 0, - 1],
      rk_hashes = [0, 0, 0, 0],
      isTemp = True,
      materialize_hashes = False,
      payload_fd = - 1,
      offset_fd = - 1,
      offset_map = (\<lambda>i. canary_entry)
         (0 := \<lparr>entry_off = 0, entry_size = 1\<rparr>, 1 := \<lparr>entry_off = 1, entry_size = 2\<rparr>),
      payload_map = (\<lambda>i. 0xFF)(0 := 0x61, 1 := 0x61, 2 := 0x62),
      offset_file_size = 4194304,
      payload_file_size = 4194304,
      payload_file_off = 3,
      like_cache = Map.empty,
      regex_cache = Map.empty,
      equal_cache = Map.empty,
      compare_cache = [],
      sorted_cache = []\<rparr>"






section \<open>Evaluation rules\<close>

lemmas result_simps =
  bindP_def bindE_def Let_def INVALID_STR_ID_def

lemmas storage_simps =
  addPayloadCapacity_def addOffsetCapacity_def CANARY_BUFF_SIZE_def fds_checked_def
  getStringFromStorage_def read_payload_def getStringChecked_def getStringUnlocked_def
  getString_def fetch_string_def write_payload_def appendToStorage_def to_int32_def

lemmas probe_simps =
  rk_hash_def rk_hash_step_def same_string_def slot_holds_def first_bucket_def
  next_bucket_def computeBucket_loop.simps computeBucket_def
  computeUniqueBucketWithHash_loop.simps computeUniqueBucketWithHash_def

lemmas ingest_simps =
  fillRateIsHigh_def increaseCapacity_def invalidateInvertedIndex_def add_record_def
  getOrAddImpl_def getOrAdd_def getOrAddBulk_step_def getOrAddBulk_def to_size_t_def

lemmas open_simps =
  StringDictionary_def empty_dict_def temp_dict_with_def example_cfg_def example_dict_def

lemmas scan_simps =
  parallel_scan_def scan_worker.simps getLike_def upt_conv_Cons upto_rec1

lemmas compare_simps =
  getCompare_def getEquals_def ids_except_def sortCache_def mergeSortedCache_def
  buildSortedCache_def compare_cache_get_def compare_cache_put_def search_sorted_cache_def
  cache_range_def compare_result_def string_lt_def string_eq_def returned_def

lemma nat_cases3: "(i::nat) = 0 \<or> i = 1 \<or> i = 2 \<or> 3 \<le> i"
  by arith

lemma example_dict_eq: "example_dict = example_state"
  apply (simp add: open_simps result_simps storage_simps probe_simps ingest_simps example_state_def)
  apply (intro conjI)
    apply (simp add: numeral_eq_Suc)
   apply (simp add: numeral_eq_Suc)
  apply (rule ext)
  subgoal for i
    using nat_cases3 [of i] by (auto simp: numeral_eq_Suc)
  done

lemmas example_simps = example_dict_eq example_state_def example_cfg_def

section \<open>The hash\<close>

lemma rk_hash_step_uint:
  "uint (rk_hash_step h c) = (uint h * 997 + sint c) mod 2 ^ 32"
proof -
  have "uint (scast c :: 32 word) = sint c mod 2 ^ LENGTH(32)"
    unfolding scast_eq by (rule uint_word_of_int)
  then show ?thesis
    by (simp add: rk_hash_step_def uint_word_ariths mod_simps)
qed

lemma rk_hash_snoc: "rk_hash (s @ [c]) = rk_hash_step (rk_hash s) c"
  by (simp add: rk_hash_def)

lemma rk_hash_signed_fold_snoc:
  "rk_hash_signed_fold (s @ [c]) = (rk_hash_signed_fold s * 997 + sint c) mod 2 ^ 32"
  by (simp add: rk_hash_signed_fold_def)

text \<open>
  Claim C8, as amended. For every string \<open>s\<close>, \<open>rk_hash s\<close> is the fold that starts
  with \<open>h = 1\<close> and, for each byte \<open>b\<close> of \<open>s\<close> taken as a signed \<^verbatim>\<open>char\<close> value in
  \<open>-128..127\<close>, sets \<open>h = (h * 997 + b) mod 2^32\<close>.
\<close>

theorem rk_hash_signed: "uint (rk_hash s) = rk_hash_signed_fold s"
proof (induction s rule: rev_induct)
  case Nil
  show ?case by (simp add: rk_hash_def rk_hash_signed_fold_def)
next
  case (snoc c s)
  then show ?case
    by (simp only: rk_hash_snoc rk_hash_signed_fold_snoc rk_hash_step_uint)
qed

text \<open>
  Claim C8 as stated fails at the one-byte string \<open>0x80\<close>: the hash is
  \<open>997 - 128 = 869\<close>, the fold over unsigned bytes gives \<open>997 + 128 = 1125\<close>.
\<close>

theorem rk_hash_unsigned_counterexample:
  "unat (rk_hash [0x80]) = 869 \<and> rk_hash_unsigned_spec [0x80] = 1125"
  by (simp add: rk_hash_def rk_hash_step_def rk_hash_unsigned_spec_def)

section \<open>The empty string\<close>

lemma getOrAddBulk_loop_append:
  "getOrAddBulk_loop cfg T st (xs @ ys) =
     bindP (getOrAddBulk_loop cfg T st xs) (\<lambda>st'. getOrAddBulk_loop cfg T st' ys)"
proof (induction xs arbitrary: st)
  case Nil
  show ?case by (simp add: bindP_def)
next
  case (Cons x xs)
  show ?case
    by (cases "getOrAddBulk_step cfg T st x")
       (auto simp: bindP_def Cons.IH split: sum.splits)
qed

text \<open>
  Claim C2. In every dictionary state, \<^verbatim>\<open>getOrAdd("")\<close> returns the 32-bit null
  sentinel and leaves the state as it is; and an empty string at any position of the
  input of \<^verbatim>\<open>getOrAddBulk<T>\<close> writes the null sentinel of \<open>T\<close> at that position of
  the buffer and leaves the state as it is (storage, index slots and \<open>str_count\<close>):
  the loop continues from the state and the codes it had before the empty string, with
  the null code appended.
\<close>

theorem empty_string_is_null:
  "getOrAdd cfg d [] = Some (Inr (d, inline_int_null_value Int32)) \<and>
   getOrAddBulk_step cfg T (d, encoded_vec) [] =
     Some (Inr (d, encoded_vec @ [cast_to T (inline_int_null_value T)])) \<and>
   getOrAddBulk_loop cfg T (d, encoded_vec) (before @ [] # after) =
     bindP (getOrAddBulk_loop cfg T (d, encoded_vec) before) (\<lambda>(d', encoded_vec').
       getOrAddBulk_loop cfg T (d', encoded_vec' @ [cast_to T (inline_int_null_value T)]) after)"
proof -
  have step: "getOrAddBulk_step cfg T st [] =
      Some (Inr (fst st, snd st @ [cast_to T (inline_int_null_value T)]))" for st
    by (simp add: getOrAddBulk_step_def)
  have "getOrAddBulk_loop cfg T (d, encoded_vec) (before @ [] # after) =
      bindP (getOrAddBulk_loop cfg T (d, encoded_vec) before)
        (\<lambda>st'. getOrAddBulk_loop cfg T st' ([] # after))"
    by (rule getOrAddBulk_loop_append)
  also have "\<dots> = bindP (getOrAddBulk_loop cfg T (d, encoded_vec) before) (\<lambda>(d', encoded_vec').
       getOrAddBulk_loop cfg T (d', encoded_vec' @ [cast_to T (inline_int_null_value T)]) after)"
    by (auto simp: step bindP_def split: option.splits sum.splits)
  finally show ?thesis
    by (simp add: getOrAdd_def getOrAddImpl_def step)
qed

section \<open>The LIKE cache\<close>




section \<open>Probing: where the loops stop\<close>

lemma and_nat_le2: "and (a::nat) b \<le> b"
proof -
  have "int (and a b) = and (int a) (int b)" by (simp add: of_nat_and_eq)
  also have "\<dots> \<le> int b" by (rule AND_upper2) simp
  finally show ?thesis by simp
qed

lemma first_bucket_less: "0 < n \<Longrightarrow> first_bucket hash n < n"
  using and_nat_le2 [of "unat hash" "n - 1"] by (simp add: first_bucket_def)

lemma to_int32_small: "n < 2 ^ 31 \<Longrightarrow> to_int32 n = int n"
  by (simp add: to_int32_def signed_of_nat signed_take_bit_int_eq_self)

lemma next_bucket_mod: "b < n \<Longrightarrow> next_bucket n b = Suc b mod n"
  by (auto simp: next_bucket_def mod_Suc)

lemma next_bucket_less: "b < n \<Longrightarrow> next_bucket n b < n"
  by (auto simp: next_bucket_def)

lemma cyc_step: "(Suc b mod n + k) mod n = Suc (b + k) mod (n::nat)"
  by (metis add_Suc mod_add_left_eq)

lemma unique_loop_result:
  assumes "b < length data"
    and "data ! ((b + k) mod length data) = INVALID_STR_ID"
    and "\<forall>j<k. data ! ((b + j) mod length data) \<noteq> INVALID_STR_ID"
  shows "computeUniqueBucketWithHash_loop data b = Some (Inr ((b + k) mod length data))"
  using assms
proof (induction k arbitrary: b)
  case 0
  then show ?case
    by (subst computeUniqueBucketWithHash_loop.simps) simp
next
  case (Suc k)
  let ?n = "length data"
  have npos: "0 < ?n" using Suc.prems(1) by (cases data) auto
  have occupied: "data ! b \<noteq> INVALID_STR_ID"
    using Suc.prems(3) [rule_format, of 0] Suc.prems(1) by simp
  have nb: "next_bucket ?n b = Suc b mod ?n" "next_bucket ?n b < ?n"
    using Suc.prems(1) next_bucket_mod [of b ?n] next_bucket_less [of b ?n] by blast+
  have "computeUniqueBucketWithHash_loop data (next_bucket ?n b) =
          Some (Inr ((next_bucket ?n b + k) mod ?n))"
  proof (rule Suc.IH [OF nb(2)])
    show "data ! ((next_bucket ?n b + k) mod ?n) = INVALID_STR_ID"
      using Suc.prems(2) by (simp add: nb(1) cyc_step)
    show "\<forall>j<k. data ! ((next_bucket ?n b + j) mod ?n) \<noteq> INVALID_STR_ID"
      using Suc.prems(3) by (auto simp: nb(1) cyc_step)
  qed
  then show ?case
    using occupied Suc.prems(1)
    by (subst computeUniqueBucketWithHash_loop.simps) (simp add: nb(1) cyc_step)
qed

lemma loop_result:
  assumes "b < length data"
    and "data ! ((b + k) mod length data) = INVALID_STR_ID \<or>
         slot_holds cfg d hash str (data ! ((b + k) mod length data)) = Inr True"
    and "\<forall>j<k. data ! ((b + j) mod length data) \<noteq> INVALID_STR_ID \<and>
               slot_holds cfg d hash str (data ! ((b + j) mod length data)) = Inr False"
  shows "computeBucket_loop cfg d hash str data False b = Some (Inr ((b + k) mod length data))"
  using assms
proof (induction k arbitrary: b)
  case 0
  then show ?case
    by (subst computeBucket_loop.simps) auto
next
  case (Suc k)
  let ?n = "length data"
  have npos: "0 < ?n" using Suc.prems(1) by (cases data) auto
  have occupied: "data ! b \<noteq> INVALID_STR_ID" "slot_holds cfg d hash str (data ! b) = Inr False"
    using Suc.prems(3) [rule_format, of 0] Suc.prems(1) by simp_all
  have nb: "next_bucket ?n b = Suc b mod ?n" "next_bucket ?n b < ?n"
    using Suc.prems(1) next_bucket_mod [of b ?n] next_bucket_less [of b ?n] by blast+
  have "computeBucket_loop cfg d hash str data False (next_bucket ?n b) =
          Some (Inr ((next_bucket ?n b + k) mod ?n))"
  proof (rule Suc.IH [OF nb(2)])
    show "data ! ((next_bucket ?n b + k) mod ?n) = INVALID_STR_ID \<or>
          slot_holds cfg d hash str (data ! ((next_bucket ?n b + k) mod ?n)) = Inr True"
      using Suc.prems(2) by (simp add: nb(1) cyc_step)
    show "\<forall>j<k. data ! ((next_bucket ?n b + j) mod ?n) \<noteq> INVALID_STR_ID \<and>
        slot_holds cfg d hash str (data ! ((next_bucket ?n b + j) mod ?n)) = Inr False"
      using Suc.prems(3) by (auto simp: nb(1) cyc_step)
  qed
  then show ?case
    using occupied Suc.prems(1)
    by (subst computeBucket_loop.simps) (simp add: nb(1) cyc_step)
qed

lemma first_stop:
  assumes "b < (n::nat)" and "e < n" and "P e"
  shows "\<exists>k<n. P ((b + k) mod n) \<and> (\<forall>j<k. \<not> P ((b + j) mod n))"
proof -
  define k0 where "k0 = (e + n - b) mod n"
  have "(b + k0) mod n = (b + (e + n - b)) mod n"
    unfolding k0_def by (simp add: mod_add_right_eq)
  also have "\<dots> = e" using assms(1,2) by simp
  finally have hit: "P ((b + k0) mod n)" using assms(3) by simp
  have k0: "k0 < n" unfolding k0_def using assms(1) by simp
  define k where "k = (LEAST k. P ((b + k) mod n))"
  have 1: "P ((b + k) mod n)" unfolding k_def using hit by (rule LeastI)
  have "k \<le> k0" unfolding k_def using hit by (rule Least_le)
  then have 2: "k < n" using k0 by simp
  have 3: "\<forall>j<k. \<not> P ((b + j) mod n)"
    unfolding k_def using not_less_Least by blast
  from 1 2 3 show ?thesis by blast
qed


lemma bucket_fits: "b < n \<Longrightarrow> n \<le> 2 ^ 32 \<Longrightarrow> b mod 2 ^ 32 = (b::nat)"
  by simp

lemma computeUniqueBucketWithHash_stops:
  assumes "0 < length data" and "length data \<le> 2 ^ 32" and "INVALID_STR_ID \<in> set data"
  shows "\<exists>b k. computeUniqueBucketWithHash hash data = Some (Inr b) \<and> b < length data \<and>
           k < length data \<and> b = (first_bucket hash (length data) + k) mod length data \<and>
           data ! b = INVALID_STR_ID \<and>
           (\<forall>j<k. data ! ((first_bucket hash (length data) + j) mod length data) \<noteq> INVALID_STR_ID)"
proof -
  let ?n = "length data" and ?b = "first_bucket hash (length data)"
  have b: "?b < ?n" using assms(1) by (rule first_bucket_less)
  obtain e where e: "e < ?n" "data ! e = INVALID_STR_ID"
    using assms(3) by (auto simp: in_set_conv_nth)
  obtain k where k: "k < ?n" "data ! ((?b + k) mod ?n) = INVALID_STR_ID"
      "\<forall>j<k. data ! ((?b + j) mod ?n) \<noteq> INVALID_STR_ID"
    using first_stop [OF b e(1), of "\<lambda>p. data ! p = INVALID_STR_ID"] e(2) by blast
  have "computeUniqueBucketWithHash_loop data ?b = Some (Inr ((?b + k) mod ?n))"
    using b k(2,3) by (rule unique_loop_result)
  moreover have lt: "(?b + k) mod ?n < ?n" using assms(1) by simp
  ultimately have "computeUniqueBucketWithHash hash data = Some (Inr ((?b + k) mod ?n))"
    using assms(2) by (simp add: computeUniqueBucketWithHash_def bindP_def)
  with k lt show ?thesis by blast
qed

lemma computeBucket_stops:
  assumes "0 < length data" and "length data \<le> 2 ^ 32" and "INVALID_STR_ID \<in> set data"
    and "\<forall>x\<in>set data. x \<noteq> INVALID_STR_ID \<longrightarrow> (\<exists>r. slot_holds cfg d hash str x = Inr r)"
  shows "\<exists>b k. computeBucket cfg d hash str data False = Some (Inr b) \<and> b < length data \<and>
           k < length data \<and> b = (first_bucket hash (length data) + k) mod length data \<and>
           (data ! b = INVALID_STR_ID \<or> slot_holds cfg d hash str (data ! b) = Inr True) \<and>
           (\<forall>j<k. data ! ((first_bucket hash (length data) + j) mod length data) \<noteq> INVALID_STR_ID \<and>
              slot_holds cfg d hash str (data ! ((first_bucket hash (length data) + j) mod length data)) = Inr False)"
proof -
  let ?n = "length data" and ?b = "first_bucket hash (length data)"
  let ?stop = "\<lambda>p. data ! p = INVALID_STR_ID \<or> slot_holds cfg d hash str (data ! p) = Inr True"
  have b: "?b < ?n" using assms(1) by (rule first_bucket_less)
  obtain e where e: "e < ?n" "data ! e = INVALID_STR_ID"
    using assms(3) by (auto simp: in_set_conv_nth)
  obtain k where k: "k < ?n" "?stop ((?b + k) mod ?n)" "\<forall>j<k. \<not> ?stop ((?b + j) mod ?n)"
    using first_stop [OF b e(1), of ?stop] e(2) by blast
  have before: "data ! ((?b + j) mod ?n) \<noteq> INVALID_STR_ID \<and>
      slot_holds cfg d hash str (data ! ((?b + j) mod ?n)) = Inr False" if "j < k" for j
  proof -
    let ?x = "data ! ((?b + j) mod ?n)"
    have ns: "?x \<noteq> INVALID_STR_ID" "slot_holds cfg d hash str ?x \<noteq> Inr True"
      using k(3) that by auto
    have "?x \<in> set data" using assms(1) by simp
    then obtain r where "slot_holds cfg d hash str ?x = Inr r"
      using assms(4) ns(1) by blast
    with ns show ?thesis by (cases r) auto
  qed
  have "computeBucket_loop cfg d hash str data False ?b = Some (Inr ((?b + k) mod ?n))"
    using b k(2) before by (intro loop_result) auto
  moreover have lt: "(?b + k) mod ?n < ?n" using assms(1) by simp
  ultimately have "computeBucket cfg d hash str data False = Some (Inr ((?b + k) mod ?n))"
    using assms(2) by (simp add: computeBucket_def bindP_def)
  with k(1,2) before lt show ?thesis by blast
qed





section \<open>The fill rate of the index\<close>

lemma pow2_from_and:
  "0 < (n::nat) \<Longrightarrow> and n (n - 1) = 0 \<Longrightarrow> \<exists>m. n = 2 ^ m"
proof (induction n rule: less_induct)
  case (less n)
  show ?case
  proof (cases "n = 1")
    case True
    then have "n = 2 ^ 0" by simp
    then show ?thesis by blast
  next
    case False
    with less.prems have n2: "2 \<le> n" by simp
    show ?thesis
    proof (cases "even n")
      case True
      then obtain k where k: "n = 2 * k" by (auto elim: evenE)
      with n2 have kpos: "0 < k" by simp
      have "(n - 1) div 2 = k - 1" using k kpos by (cases k) auto
      moreover have "n div 2 = k" using k by simp
      ultimately have "and n (n - 1) = 2 * and k (k - 1)"
        using True by (subst and_rec) simp
      with less.prems have "and k (k - 1) = 0" by simp
      moreover have "k < n" using k kpos by simp
      ultimately obtain m where "k = 2 ^ m" using less.IH kpos by blast
      then have "n = 2 ^ Suc m" using k by simp
      then show ?thesis by blast
    next
      case False
      then obtain k where k: "n = 2 * k + 1" by (auto elim: oddE)
      with n2 have kpos: "0 < k" by simp
      have "and n (n - 1) = 2 * and k k"
        using k by (subst and_rec) simp
      then have "and n (n - 1) \<noteq> 0" using kpos by simp
      with less.prems show ?thesis by simp
    qed
  qed
qed

lemma bindP_Some_Inr:
  "bindP m f = Some (Inr y) \<longleftrightarrow> (\<exists>x. m = Some (Inr x) \<and> f x = Some (Inr y))"
  by (auto simp: bindP_def split: option.splits sum.splits)

lemma bindE_Inr:
  "bindE m f = Inr y \<longleftrightarrow> (\<exists>x. m = Inr x \<and> f x = Inr y)"
  by (auto simp: bindE_def split: sum.splits)

lemma rehash_slots_length:
  "rehash_slots d xs new = Some (Inr r) \<Longrightarrow> length r = length new"
proof (induction xs arbitrary: new)
  case Nil
  then show ?case by simp
next
  case (Cons x xs)
  then show ?case
    by (auto simp: bindP_Some_Inr split: if_splits dest!: Cons.IH)
qed

lemma rehash_ids_length:
  "rehash_ids cfg d xs new = Some (Inr r) \<Longrightarrow> length r = length new"
proof (induction xs arbitrary: new)
  case Nil
  then show ?case by simp
next
  case (Cons x xs)
  then show ?case
    by (auto simp: bindP_Some_Inr dest!: Cons.IH)
qed

lemma increaseCapacity_shape:
  assumes "increaseCapacity cfg d = Some (Inr d')"
  shows "length (str_ids d') = 2 * length (str_ids d) \<and> str_count d' = str_count d"
  using assms
  by (auto simp: increaseCapacity_def Let_def bindP_Some_Inr split: if_splits
           dest!: rehash_slots_length rehash_ids_length)

lemma appendToStorage_shape:
  assumes "appendToStorage cfg d str = Inr d'"
  shows "str_ids d' = str_ids d \<and> str_count d' = str_count d"
  using assms
  by (auto simp: appendToStorage_def addPayloadCapacity_def addOffsetCapacity_def Let_def
        bindE_Inr split: if_splits)

lemma add_record_shape:
  assumes "add_record cfg d hash str bucket = Some (Inr (d', b))"
  shows "str_count d' = str_count d + 1"
    and "length (str_ids d') = (if fillRateIsHigh d then 2 * length (str_ids d) else length (str_ids d))"
  using assms
  by (auto simp: add_record_def Let_def bindP_Some_Inr split: if_splits
           dest!: increaseCapacity_shape appendToStorage_shape)

lemma add_record_fill_bound:
  assumes "add_record cfg d hash str bucket = Some (Inr (d', b))" and "fill_bound d"
  shows "fill_bound d'"
proof -
  from assms(2) obtain m where m: "length (str_ids d) = 2 ^ m"
    and le: "2 * str_count d \<le> length (str_ids d) + 2"
    by (auto simp: fill_bound_def)
  note shape = add_record_shape [OF assms(1)]
  show ?thesis
  proof (cases "fillRateIsHigh d")
    case True
    have "length (str_ids d') = 2 ^ Suc m" using shape(2) True m by simp
    moreover have "1 \<le> length (str_ids d)" using m by simp
    then have "2 * str_count d' \<le> length (str_ids d') + 2"
      using shape True le by simp
    ultimately show ?thesis unfolding fill_bound_def by blast
  next
    case False
    then have "2 * str_count d' \<le> length (str_ids d') + 2"
      using shape by (simp add: fillRateIsHigh_def)
    moreover have "length (str_ids d') = 2 ^ m" using shape(2) False m by simp
    ultimately show ?thesis unfolding fill_bound_def by blast
  qed
qed

lemma fill_bound_invalidate [simp]: "fill_bound (invalidateInvertedIndex d) = fill_bound d"
  by (simp add: fill_bound_def invalidateInvertedIndex_def)






lemma StringDictionary_str_ids:
  assumes "StringDictionary cfg folder' isTemp' False materializeHashes initial_capacity = Some (Inr d)"
  shows "str_ids d = replicate initial_capacity INVALID_STR_ID" and "str_count d = 0"
  using assms
  by (auto simp: StringDictionary_def empty_dict_def Let_def bindP_Some_Inr open_files_def
        bindE_Inr addPayloadCapacity_def addOffsetCapacity_def
        split: if_splits option.splits)

lemma StringDictionary_checked:
  assumes "StringDictionary cfg folder' isTemp' recover materializeHashes initial_capacity = Some (Inr d)"
    and "isTemp' \<or> folder' \<noteq> None"
  shows "and initial_capacity (initial_capacity - 1) = 0"
  using assms
  by (cases "initial_capacity = 0") (auto simp: StringDictionary_def Let_def split: if_splits)




section \<open>The not-equal scan\<close>

text \<open>
  Claim C6 at three failing inputs, in the example dictionary (ids 0 and 1, strings
  \<open>"a"\<close> and \<open>"ab"\<close>, generation 2). Served through the equality scan, the pattern
  \<open>"c"\<close>, which no string equals, yields the ids 0, 1 and 2, the last of which is no
  id of the dictionary; the pattern \<open>"a"\<close>, which is the string of id 0, yields id 0
  as well. Served from the sorted cache (built by a preceding \<open><\<close> scan), the pattern
  \<open>"c"\<close> yields every id twice.
\<close>

theorem not_equal_scan_defects:
  "returned (getCompare example_cfg example_dict [0x63] ''<>'' 2) = Inr [0, 1, 2] \<and>
   returned (getCompare example_cfg example_dict [0x61] ''<>'' 2) = Inr [0, 1, 2] \<and>
   returned (getCompare_all example_cfg example_dict
      [([0x63], ''<'', 2), ([0x63], ''<>'', 2)]) = Inr [[0, 1], [0, 1, 0, 1]]"
  by (simp add: example_simps result_simps storage_simps scan_simps compare_simps to_size_t_def)

section \<open>Invariants of a local dictionary\<close>

text \<open>
  What the proofs need of the configuration: the size field of an offset record holds
  every string length and never the canary value, ids fit \<^verbatim>\<open>int32_t\<close>, and one growth
  chunk holds a string of maximal length and an offset record.
\<close>

definition config_ok :: "config \<Rightarrow> bool" where
  "config_ok cfg \<longleftrightarrow>
     MAX_STRLEN cfg < 65535 \<and> MAX_STRCOUNT cfg < 2 ^ 31 \<and>
     0 < sizeof_StringIdxEntry cfg \<and> MAX_STRLEN cfg \<le> CANARY_BUFF_SIZE cfg \<and>
     sizeof_StringIdxEntry cfg \<le> CANARY_BUFF_SIZE cfg"

text \<open>The offset record of id \<open>i\<close> describes the string \<open>s\<close>, whose bytes lie in the
  written part of the payload.\<close>

definition entry_holds :: "dict \<Rightarrow> nat \<Rightarrow> str \<Rightarrow> bool" where
  "entry_holds d i s \<longleftrightarrow>
     entry_size (offset_map d i) \<noteq> 0xffff \<and>
     unat (entry_size (offset_map d i)) = length s \<and>
     unat (entry_off (offset_map d i)) + length s \<le> payload_file_off d \<and>
     map (payload_map d)
       [unat (entry_off (offset_map d i))..<unat (entry_off (offset_map d i)) + length s] = s"

text \<open>The storage holds exactly the strings \<open>strs\<close>, the string of id \<open>i\<close> being
  \<open>strs ! i\<close>; every later offset record is a canary.\<close>

definition storage_holds :: "config \<Rightarrow> dict \<Rightarrow> str list \<Rightarrow> bool" where
  "storage_holds cfg d strs \<longleftrightarrow>
     fds_checked d \<and>
     length strs * sizeof_StringIdxEntry cfg < offset_file_size d \<and>
     payload_file_off d \<le> payload_file_size d \<and>
     payload_file_off d \<le> length strs * MAX_STRLEN cfg \<and>
     (\<forall>i<length strs. entry_holds d i (strs ! i)) \<and>
     (\<forall>i. length strs \<le> i \<longrightarrow> offset_map d i = canary_entry)"

text \<open>
  The bucket array \<open>data\<close> indexes the ids \<open>ids\<close> of the strings \<open>strs\<close>: every
  occupied slot holds one of these ids, no id is in two slots, and every id is reached
  from the first bucket of its string's hash through occupied slots only.
\<close>

definition table_ok :: "str list \<Rightarrow> nat set \<Rightarrow> int list \<Rightarrow> bool" where
  "table_ok strs ids data \<longleftrightarrow>
     0 < length data \<and> length data \<le> 2 ^ 32 \<and>
     (\<forall>p<length data. data ! p = INVALID_STR_ID \<or> (0 \<le> data ! p \<and> nat (data ! p) \<in> ids)) \<and>
     (\<forall>p<length data. \<forall>q<length data.
        data ! p = data ! q \<and> data ! p \<noteq> INVALID_STR_ID \<longrightarrow> p = q) \<and>
     (\<forall>i\<in>ids. \<exists>k<length data.
        data ! ((first_bucket (rk_hash (strs ! i)) (length data) + k) mod length data) = int i \<and>
        (\<forall>j<k. data ! ((first_bucket (rk_hash (strs ! i)) (length data) + j) mod length data)
                 \<noteq> INVALID_STR_ID))"

definition hashes_ok :: "dict \<Rightarrow> str list \<Rightarrow> bool" where
  "hashes_ok d strs \<longleftrightarrow>
     (materialize_hashes d \<longrightarrow>
        length (rk_hashes d) = length (str_ids d) \<and>
        (\<forall>i<length strs. rk_hashes d ! i = rk_hash (strs ! i)))"

text \<open>The invariant of a local dictionary that holds the strings \<open>strs\<close>.\<close>

definition dict_inv :: "config \<Rightarrow> dict \<Rightarrow> str list \<Rightarrow> bool" where
  "dict_inv cfg d strs \<longleftrightarrow>
     str_count d = length strs \<and> length strs \<le> MAX_STRCOUNT cfg \<and> distinct strs \<and>
     storage_holds cfg d strs \<and>
     table_ok strs {0..<length strs} (str_ids d) \<and>
     fill_bound d \<and> 3 \<le> length (str_ids d) \<and>
     hashes_ok d strs"

section \<open>Reading the storage\<close>

lemma storage_entry_in_file:
  assumes "storage_holds cfg d strs" and "i < length strs"
  shows "(i + 1) * sizeof_StringIdxEntry cfg \<le> offset_file_size d"
proof -
  have "(i + 1) * sizeof_StringIdxEntry cfg \<le> length strs * sizeof_StringIdxEntry cfg"
    using assms(2) by (intro mult_le_mono1) simp
  then show ?thesis using assms(1) by (simp add: storage_holds_def)
qed

lemma getStringFromStorage_stored:
  assumes "storage_holds cfg d strs" and "i < length strs"
  shows "getStringFromStorage cfg d (int i) =
           Inr \<lparr>c_str_ptr = Some (unat (entry_off (offset_map d i))),
                ps_size = length (strs ! i), canary = False\<rparr>"
proof -
  have "entry_holds d i (strs ! i)" and "fds_checked d"
    using assms by (simp_all add: storage_holds_def)
  then show ?thesis
    using storage_entry_in_file [OF assms]
    by (simp add: getStringFromStorage_def entry_holds_def)
qed

lemma read_payload_stored:
  assumes "storage_holds cfg d strs" and "i < length strs"
  shows "read_payload d (Some (unat (entry_off (offset_map d i)))) (length (strs ! i)) =
           Inr (strs ! i)"
proof -
  have "entry_holds d i (strs ! i)" and "payload_file_off d \<le> payload_file_size d"
    using assms by (simp_all add: storage_holds_def)
  then show ?thesis
    by (simp add: read_payload_def entry_holds_def)
qed

lemma fetch_string_stored:
  assumes "storage_holds cfg d strs" and "i < length strs"
  shows "fetch_string cfg d (int i) = Inr (strs ! i)"
  by (simp add: fetch_string_def bindE_def getStringFromStorage_stored [OF assms]
        read_payload_stored [OF assms])

lemma getStringChecked_stored:
  assumes "storage_holds cfg d strs" and "i < length strs"
  shows "getStringChecked cfg d (int i) = Inr (strs ! i)"
  by (simp add: getStringChecked_def bindE_def getStringFromStorage_stored [OF assms]
        read_payload_stored [OF assms])

lemma same_string_stored:
  assumes "storage_holds cfg d strs" and "i < length strs"
  shows "same_string cfg d s (int i) = Inr (s = strs ! i)"
  using read_payload_stored [OF assms]
  by (auto simp: same_string_def bindE_def getStringFromStorage_stored [OF assms])

lemma slot_holds_stored:
  assumes "storage_holds cfg d strs" and "hashes_ok d strs" and "i < length strs"
    and "length strs \<le> length (str_ids d)"
  shows "slot_holds cfg d (rk_hash s) s (int i) = Inr (s = strs ! i)"
  using assms(2,3,4)
  by (auto simp: slot_holds_def hashes_ok_def same_string_stored [OF assms(1,3)])


section \<open>Appending to the storage\<close>

lemma unat_off_small: "n < 2 ^ 64 \<Longrightarrow> unat (word_of_nat n :: 64 word) = n"
  by (simp add: unat_of_nat)

lemma unat_size_small: "n < 65535 \<Longrightarrow> unat (word_of_nat n :: 16 word) = n"
  by (simp add: unat_of_nat)

lemma size_not_canary: "n < 65535 \<Longrightarrow> (word_of_nat n :: 16 word) \<noteq> 0xffff"
proof
  assume "n < 65535" and "(word_of_nat n :: 16 word) = 0xffff"
  then have "unat (word_of_nat n :: 16 word) = unat (0xffff :: 16 word)" by simp
  with \<open>n < 65535\<close> show False by (simp add: unat_of_nat)
qed

lemma map_write_payload_same:
  "map (write_payload m a bs) [a..<a + length bs] = bs"
  by (auto simp: write_payload_def intro!: nth_equalityI)

lemma map_write_payload_below:
  "b + n \<le> a \<Longrightarrow> map (write_payload m a bs) [b..<b + n] = map m [b..<b + n]"
  by (auto simp: write_payload_def)

text \<open>The effect of \<^verbatim>\<open>appendToStorage\<close> on the storage, as a function of the state.\<close>

definition grown_payload :: "config \<Rightarrow> dict \<Rightarrow> str \<Rightarrow> dict" where
  "grown_payload cfg d str =
     (if payload_file_size d < payload_file_off d + length str then addPayloadCapacity cfg d else d)"

definition grown_offsets :: "config \<Rightarrow> dict \<Rightarrow> dict" where
  "grown_offsets cfg d =
     (if offset_file_size d \<le> str_count d * sizeof_StringIdxEntry cfg + sizeof_StringIdxEntry cfg
      then addOffsetCapacity cfg d else d)"

definition appended :: "config \<Rightarrow> dict \<Rightarrow> str \<Rightarrow> dict" where
  "appended cfg d str =
     (let d1 = grown_payload cfg d str;
          d3 = d1\<lparr>payload_map := write_payload (payload_map d1) (payload_file_off d1) str,
                  payload_file_off := payload_file_off d1 + length str\<rparr>;
          d4 = grown_offsets cfg d3
      in d4\<lparr>offset_map := (offset_map d4)
              (str_count d4 := \<lparr>entry_off = word_of_nat (payload_file_off d1),
                                 entry_size = word_of_nat (length str)\<rparr>)\<rparr>)"

lemma appendToStorage_appended:
  assumes "config_ok cfg" and "storage_holds cfg d strs" and "str_count d = length strs"
    and "length s \<le> MAX_STRLEN cfg"
  shows "appendToStorage cfg d s = Inr (appended cfg d s)"
proof -
  have ok: "fds_checked d" "payload_file_off d \<le> payload_file_size d"
    "length strs * sizeof_StringIdxEntry cfg < offset_file_size d"
    using assms(2) by (simp_all add: storage_holds_def)
  have chunk: "length s \<le> CANARY_BUFF_SIZE cfg"
    "sizeof_StringIdxEntry cfg \<le> CANARY_BUFF_SIZE cfg"
    using assms(1,4) by (simp_all add: config_ok_def)
  show ?thesis
    using ok chunk assms(3)
    by (simp add: appendToStorage_def appended_def grown_payload_def grown_offsets_def
          bindE_def Let_def addPayloadCapacity_def addOffsetCapacity_def)
qed

lemma appended_fields [simp]:
  "str_count (appended cfg d s) = str_count d"
  "str_ids (appended cfg d s) = str_ids d"
  "rk_hashes (appended cfg d s) = rk_hashes d"
  "materialize_hashes (appended cfg d s) = materialize_hashes d"
  "isTemp (appended cfg d s) = isTemp d"
  "payload_fd (appended cfg d s) = payload_fd d"
  "offset_fd (appended cfg d s) = offset_fd d"
  "like_cache (appended cfg d s) = like_cache d"
  "regex_cache (appended cfg d s) = regex_cache d"
  "equal_cache (appended cfg d s) = equal_cache d"
  "compare_cache (appended cfg d s) = compare_cache d"
  "sorted_cache (appended cfg d s) = sorted_cache d"
  "payload_file_off (appended cfg d s) = payload_file_off d + length s"
  by (simp_all add: appended_def grown_payload_def grown_offsets_def addPayloadCapacity_def
        addOffsetCapacity_def Let_def)

lemma appended_offset_map:
  assumes "str_count d * sizeof_StringIdxEntry cfg < offset_file_size d"
    and "\<forall>i. str_count d \<le> i \<longrightarrow> offset_map d i = canary_entry"
  shows "offset_map (appended cfg d s) i =
     (if i = str_count d
      then \<lparr>entry_off = word_of_nat (payload_file_off d), entry_size = word_of_nat (length s)\<rparr>
      else offset_map d i)"
proof (cases "i < str_count d")
  case True
  then have "(i + 1) * sizeof_StringIdxEntry cfg \<le> str_count d * sizeof_StringIdxEntry cfg"
    by (intro mult_le_mono1) simp
  then show ?thesis
    using True assms(1)
    by (simp add: appended_def grown_payload_def grown_offsets_def addPayloadCapacity_def
          addOffsetCapacity_def Let_def)
next
  case False
  then show ?thesis
    using assms(2)
    by (simp add: appended_def grown_payload_def grown_offsets_def addPayloadCapacity_def
          addOffsetCapacity_def Let_def)
qed

lemma appended_payload_map:
  assumes "i < payload_file_size d \<or> (payload_file_off d \<le> i \<and> i < payload_file_off d + length s)"
  shows "payload_map (appended cfg d s) i = write_payload (payload_map d) (payload_file_off d) s i"
  using assms
  by (auto simp: appended_def grown_payload_def grown_offsets_def addPayloadCapacity_def
        addOffsetCapacity_def Let_def write_payload_def)

lemma appended_payload_range:
  assumes "a + n \<le> payload_file_size d \<or> a = payload_file_off d \<and> n = length s"
  shows "map (payload_map (appended cfg d s)) [a..<a + n] =
         map (write_payload (payload_map d) (payload_file_off d) s) [a..<a + n]"
  using assms by (intro map_cong refl appended_payload_map) auto

lemma appended_sizes:
  assumes "payload_file_off d \<le> payload_file_size d" and "length s \<le> CANARY_BUFF_SIZE cfg"
    and "str_count d * sizeof_StringIdxEntry cfg < offset_file_size d"
    and "sizeof_StringIdxEntry cfg \<le> CANARY_BUFF_SIZE cfg"
  shows "payload_file_off d + length s \<le> payload_file_size (appended cfg d s)"
    and "(str_count d + 1) * sizeof_StringIdxEntry cfg < offset_file_size (appended cfg d s)"
  using assms
  by (simp_all add: appended_def grown_payload_def grown_offsets_def addPayloadCapacity_def
        addOffsetCapacity_def Let_def)

lemma fds_checked_appended [simp]: "fds_checked (appended cfg d s) = fds_checked d"
  by (simp add: fds_checked_def)

lemma payload_off_fits:
  assumes "config_ok cfg" and "n \<le> MAX_STRCOUNT cfg" and "off \<le> n * MAX_STRLEN cfg"
  shows "off < 2 ^ 64"
proof -
  have "n * MAX_STRLEN cfg \<le> 2 ^ 31 * 2 ^ 16"
    using assms(1,2) by (intro mult_mono) (simp_all add: config_ok_def)
  then show ?thesis using assms(3) by simp
qed

lemma storage_holds_appended:
  assumes "config_ok cfg" and "storage_holds cfg d strs" and "str_count d = length strs"
    and "length s \<le> MAX_STRLEN cfg" and "length strs < MAX_STRCOUNT cfg"
  shows "storage_holds cfg (appended cfg d s) (strs @ [s])"
proof -
  let ?d' = "appended cfg d s" and ?n = "length strs"
  have ok: "fds_checked d" "payload_file_off d \<le> payload_file_size d"
    "str_count d * sizeof_StringIdxEntry cfg < offset_file_size d"
    "payload_file_off d \<le> ?n * MAX_STRLEN cfg"
    "\<forall>i. str_count d \<le> i \<longrightarrow> offset_map d i = canary_entry"
    "\<And>i. i < ?n \<Longrightarrow> entry_holds d i (strs ! i)"
    using assms(2,3) by (simp_all add: storage_holds_def)
  have chunk: "length s \<le> CANARY_BUFF_SIZE cfg"
    "sizeof_StringIdxEntry cfg \<le> CANARY_BUFF_SIZE cfg" "length s < 65535"
    using assms(1,4) by (simp_all add: config_ok_def)
  note om = appended_offset_map [OF ok(3,5)]
  note sz = appended_sizes [OF ok(2) chunk(1) ok(3) chunk(2)]
  have off: "unat (word_of_nat (payload_file_off d) :: 64 word) = payload_file_off d"
    using payload_off_fits [OF assms(1) _ ok(4)] assms(5) by (simp add: unat_off_small)
  have old: "entry_holds ?d' i ((strs @ [s]) ! i)" if "i < ?n" for i
  proof -
    from ok(6) [OF that] show ?thesis
      using that assms(3) ok(2)
      by (auto simp: entry_holds_def om nth_append appended_payload_range
            map_write_payload_below)
  qed
  have new: "entry_holds ?d' ?n ((strs @ [s]) ! ?n)"
    using assms(3) chunk(3)
    by (simp add: entry_holds_def om off unat_size_small size_not_canary
          appended_payload_range map_write_payload_same)
  have all: "\<forall>i<length (strs @ [s]). entry_holds ?d' i ((strs @ [s]) ! i)"
    using old new by (auto simp: less_Suc_eq)
  have bound: "payload_file_off ?d' \<le> length (strs @ [s]) * MAX_STRLEN cfg"
    using ok(4) assms(4) by simp
  show ?thesis
    unfolding storage_holds_def
    using ok(1,5) sz all bound assms(3) by (simp add: om)
qed

section \<open>The bucket array\<close>

lemma table_has_empty_slot:
  assumes "table_ok strs ids data" and "finite ids" and "card ids < length data"
  shows "INVALID_STR_ID \<in> set data"
proof (rule ccontr)
  assume none: "INVALID_STR_ID \<notin> set data"
  let ?f = "\<lambda>p. nat (data ! p)"
  have occ: "data ! p \<noteq> INVALID_STR_ID" if "p < length data" for p
    using none that by (metis nth_mem)
  have rng: "0 \<le> data ! p \<and> nat (data ! p) \<in> ids" if "p < length data" for p
    using assms(1) occ [OF that] that by (auto simp: table_ok_def)
  have "inj_on ?f {0..<length data}"
  proof (rule inj_onI)
    fix p q assume pq: "p \<in> {0..<length data}" "q \<in> {0..<length data}" "?f p = ?f q"
    then have "data ! p = data ! q" using rng [of p] rng [of q] by (auto simp: nat_eq_iff)
    then show "p = q" using assms(1) pq occ [of p] by (auto simp: table_ok_def)
  qed
  moreover have "?f ` {0..<length data} \<subseteq> ids" using rng by auto
  ultimately have "card {0..<length data} \<le> card ids"
    using assms(2) by (rule card_inj_on_le)
  then show False using assms(3) by simp
qed

lemma table_ok_insert:
  assumes t: "table_ok strs ids data" and new: "i \<notin> ids"
    and b: "b = (first_bucket (rk_hash (strs ! i)) (length data) + k) mod length data"
    and empty: "data ! b = INVALID_STR_ID"
    and path: "\<forall>j<k. data ! ((first_bucket (rk_hash (strs ! i)) (length data) + j) mod length data)
                 \<noteq> INVALID_STR_ID"
    and k: "k < length data"
  shows "table_ok strs (insert i ids) (data[b := int i])"
proof -
  let ?n = "length data" and ?data' = "data[b := int i]"
  have npos: "0 < ?n" and nle: "?n \<le> 2 ^ 32" using t by (simp_all add: table_ok_def)
  have blt: "b < ?n" using b npos by simp
  have inv: "INVALID_STR_ID \<noteq> int i" by (simp add: INVALID_STR_ID_def)
  have get: "?data' ! p = (if p = b then int i else data ! p)" if "p < ?n" for p
    using that by (simp add: nth_list_update)
  have rng: "?data' ! p = INVALID_STR_ID \<or> (0 \<le> ?data' ! p \<and> nat (?data' ! p) \<in> insert i ids)"
    if "p < ?n" for p
    using t that by (auto simp: get table_ok_def)
  have held: "data ! p \<noteq> int i" if "p < ?n" for p
  proof
    assume "data ! p = int i"
    moreover have "data ! p = INVALID_STR_ID \<or> nat (data ! p) \<in> ids"
      using t that by (auto simp: table_ok_def)
    ultimately show False using new inv by auto
  qed
  have inj: "p = q" if "p < ?n" "q < ?n" "?data' ! p = ?data' ! q" "?data' ! p \<noteq> INVALID_STR_ID"
    for p q
  proof (cases "p = b \<or> q = b")
    case True
    then show ?thesis using that held [of p] held [of q] by (auto simp: get split: if_splits)
  next
    case False
    then show ?thesis using that t by (auto simp: get table_ok_def)
  qed
  have occupied: "?data' ! p \<noteq> INVALID_STR_ID" if "p < ?n" "data ! p \<noteq> INVALID_STR_ID" for p
    using that inv by (auto simp: get)
  have reach: "\<exists>k'<?n. ?data' ! ((first_bucket (rk_hash (strs ! x)) ?n + k') mod ?n) = int x \<and>
      (\<forall>j<k'. ?data' ! ((first_bucket (rk_hash (strs ! x)) ?n + j) mod ?n) \<noteq> INVALID_STR_ID)"
    if "x \<in> insert i ids" for x
  proof (cases "x = i")
    case True
    have "?data' ! b = int i" using blt by simp
    moreover have "\<forall>j<k. ?data' ! ((first_bucket (rk_hash (strs ! i)) ?n + j) mod ?n) \<noteq> INVALID_STR_ID"
      using path occupied npos by simp
    ultimately show ?thesis using True b k by blast
  next
    case False
    then have "x \<in> ids" using that by simp
    then obtain k' where k': "k' < ?n"
        "data ! ((first_bucket (rk_hash (strs ! x)) ?n + k') mod ?n) = int x"
        "\<forall>j<k'. data ! ((first_bucket (rk_hash (strs ! x)) ?n + j) mod ?n) \<noteq> INVALID_STR_ID"
      using t by (auto simp: table_ok_def)
    have "(first_bucket (rk_hash (strs ! x)) ?n + k') mod ?n \<noteq> b"
      using k'(2) empty by (auto simp: INVALID_STR_ID_def)
    then have "?data' ! ((first_bucket (rk_hash (strs ! x)) ?n + k') mod ?n) = int x"
      using k'(2) npos by (simp add: get)
    moreover have "\<forall>j<k'. ?data' ! ((first_bucket (rk_hash (strs ! x)) ?n + j) mod ?n) \<noteq> INVALID_STR_ID"
      using k'(3) occupied npos by simp
    ultimately show ?thesis using k'(1) by blast
  qed
  show ?thesis
    unfolding table_ok_def
    using npos nle rng inj reach by (simp del: insert_iff)
qed

lemma table_ok_empty:
  assumes "0 < n" and "n \<le> 2 ^ 32"
  shows "table_ok strs {} (replicate n INVALID_STR_ID)"
  using assms by (simp add: table_ok_def)

lemma table_slot_cases:
  assumes "table_ok strs {0..<length strs} data" and "p < length data"
  obtains "data ! p = INVALID_STR_ID" | i where "i < length strs" "data ! p = int i"
proof -
  from assms have "data ! p = INVALID_STR_ID \<or> (0 \<le> data ! p \<and> nat (data ! p) < length strs)"
    by (auto simp: table_ok_def)
  then show ?thesis
  proof
    assume "data ! p = INVALID_STR_ID" then show ?thesis by (rule that(1))
  next
    assume "0 \<le> data ! p \<and> nat (data ! p) < length strs"
    then show ?thesis using that(2) [of "nat (data ! p)"] by simp
  qed
qed

lemma table_ok_reach:
  assumes "table_ok strs ids data" and "i \<in> ids"
  shows "\<exists>k<length data.
        data ! ((first_bucket (rk_hash (strs ! i)) (length data) + k) mod length data) = int i \<and>
        (\<forall>j<k. data ! ((first_bucket (rk_hash (strs ! i)) (length data) + j) mod length data)
                 \<noteq> INVALID_STR_ID)"
  using assms unfolding table_ok_def by blast

lemma probe_stops_in_table:
  assumes st: "storage_holds cfg d strs" and h: "hashes_ok d strs"
    and t: "table_ok strs {0..<length strs} data"
    and room: "length strs < length data" and ids: "length strs \<le> length (str_ids d)"
  shows "\<exists>b k. computeBucket cfg d (rk_hash s) s data False = Some (Inr b) \<and> b < length data \<and>
           k < length data \<and> b = (first_bucket (rk_hash s) (length data) + k) mod length data \<and>
           (data ! b = INVALID_STR_ID \<or> (\<exists>i<length strs. data ! b = int i \<and> strs ! i = s)) \<and>
           (\<forall>j<k. \<exists>i<length strs.
              data ! ((first_bucket (rk_hash s) (length data) + j) mod length data) = int i \<and>
              strs ! i \<noteq> s)"
proof -
  let ?n = "length data" and ?h = "first_bucket (rk_hash s) (length data)"
  have npos: "0 < ?n" and nle: "?n \<le> 2 ^ 32" using t by (simp_all add: table_ok_def)
  have "INVALID_STR_ID \<in> set data"
    using table_has_empty_slot [OF t] room by simp
  moreover have "\<forall>x\<in>set data. x \<noteq> INVALID_STR_ID \<longrightarrow> (\<exists>r. slot_holds cfg d (rk_hash s) s x = Inr r)"
  proof (intro ballI impI)
    fix x assume "x \<in> set data" "x \<noteq> INVALID_STR_ID"
    then obtain p where "p < ?n" "data ! p = x" by (auto simp: in_set_conv_nth)
    then obtain i where "i < length strs" "x = int i"
      using table_slot_cases [OF t, of p] \<open>x \<noteq> INVALID_STR_ID\<close> by metis
    then show "\<exists>r. slot_holds cfg d (rk_hash s) s x = Inr r"
      using slot_holds_stored [OF st h _ ids] by blast
  qed
  ultimately obtain b k where bk:
      "computeBucket cfg d (rk_hash s) s data False = Some (Inr b)" "b < ?n" "k < ?n"
      "b = (?h + k) mod ?n"
      "data ! b = INVALID_STR_ID \<or> slot_holds cfg d (rk_hash s) s (data ! b) = Inr True"
      "\<forall>j<k. data ! ((?h + j) mod ?n) \<noteq> INVALID_STR_ID \<and>
          slot_holds cfg d (rk_hash s) s (data ! ((?h + j) mod ?n)) = Inr False"
    using computeBucket_stops [OF npos nle, of cfg d "rk_hash s" s] by blast
  have at: "data ! b = INVALID_STR_ID \<or> (\<exists>i<length strs. data ! b = int i \<and> strs ! i = s)"
  proof (cases "data ! b = INVALID_STR_ID")
    case True then show ?thesis by simp
  next
    case False
    then obtain i where i: "i < length strs" "data ! b = int i"
      using table_slot_cases [OF t bk(2)] by metis
    from False bk(5) have "slot_holds cfg d (rk_hash s) s (data ! b) = Inr True" by simp
    then have "strs ! i = s"
      using slot_holds_stored [OF st h i(1) ids, of s] i(2) by simp
    with i show ?thesis by blast
  qed
  have before: "\<exists>i<length strs. data ! ((?h + j) mod ?n) = int i \<and> strs ! i \<noteq> s" if "j < k" for j
  proof -
    let ?p = "(?h + j) mod ?n"
    have p: "?p < ?n" using npos by simp
    from bk(6) that have ne: "data ! ?p \<noteq> INVALID_STR_ID"
      and no: "slot_holds cfg d (rk_hash s) s (data ! ?p) = Inr False" by auto
    from ne obtain i where i: "i < length strs" "data ! ?p = int i"
      using table_slot_cases [OF t p] by metis
    have "strs ! i \<noteq> s"
      using slot_holds_stored [OF st h i(1) ids, of s] i(2) no by auto
    with i show ?thesis by blast
  qed
  from bk(1-4) at before show ?thesis by blast
qed

lemma probe_finds_stored:
  assumes st: "storage_holds cfg d strs" and h: "hashes_ok d strs"
    and t: "table_ok strs {0..<length strs} data"
    and room: "length strs < length data" and ids: "length strs \<le> length (str_ids d)"
    and dist: "distinct strs" and i: "i < length strs"
  shows "\<exists>b. computeBucket cfg d (rk_hash (strs ! i)) (strs ! i) data False = Some (Inr b) \<and>
           b < length data \<and> data ! b = int i"
proof -
  let ?n = "length data" and ?h = "first_bucket (rk_hash (strs ! i)) (length data)"
  obtain b k where bk:
      "computeBucket cfg d (rk_hash (strs ! i)) (strs ! i) data False = Some (Inr b)" "b < ?n"
      "k < ?n" "b = (?h + k) mod ?n"
      "data ! b = INVALID_STR_ID \<or> (\<exists>i'<length strs. data ! b = int i' \<and> strs ! i' = strs ! i)"
      "\<forall>j<k. \<exists>i'<length strs. data ! ((?h + j) mod ?n) = int i' \<and> strs ! i' \<noteq> strs ! i"
    using probe_stops_in_table [OF st h t room ids, of "strs ! i"] by blast
  obtain ki where ki: "ki < ?n" "data ! ((?h + ki) mod ?n) = int i"
      "\<forall>j<ki. data ! ((?h + j) mod ?n) \<noteq> INVALID_STR_ID"
    using table_ok_reach [OF t, of i] i by auto
  have "data ! b \<noteq> INVALID_STR_ID"
  proof
    assume e: "data ! b = INVALID_STR_ID"
    consider "k < ki" | "k = ki" | "ki < k" by arith
    then show False
    proof cases
      case 1 then show False using ki(3) e bk(4) by auto
    next
      case 2 then show False using ki(2) e bk(4) by (simp add: INVALID_STR_ID_def)
    next
      case 3
      then obtain i' where "i' < length strs" "data ! ((?h + ki) mod ?n) = int i'"
        "strs ! i' \<noteq> strs ! i" using bk(6) by blast
      then show False using ki(2) by simp
    qed
  qed
  then obtain i' where "i' < length strs" "data ! b = int i'" "strs ! i' = strs ! i"
    using bk(5) by blast
  then have "data ! b = int i" using dist i by (simp add: nth_eq_iff_index_eq)
  with bk(1,2) show ?thesis by blast
qed

lemma probe_misses_new:
  assumes st: "storage_holds cfg d strs" and h: "hashes_ok d strs"
    and t: "table_ok strs {0..<length strs} data"
    and room: "length strs < length data" and ids: "length strs \<le> length (str_ids d)"
    and new: "s \<notin> set strs"
  shows "\<exists>b k. computeBucket cfg d (rk_hash s) s data False = Some (Inr b) \<and> b < length data \<and>
           k < length data \<and> b = (first_bucket (rk_hash s) (length data) + k) mod length data \<and>
           data ! b = INVALID_STR_ID \<and>
           (\<forall>j<k. data ! ((first_bucket (rk_hash s) (length data) + j) mod length data)
                    \<noteq> INVALID_STR_ID)"
proof -
  let ?n = "length data" and ?h = "first_bucket (rk_hash s) (length data)"
  obtain b k where bk:
      "computeBucket cfg d (rk_hash s) s data False = Some (Inr b)" "b < ?n"
      "k < ?n" "b = (?h + k) mod ?n"
      "data ! b = INVALID_STR_ID \<or> (\<exists>i<length strs. data ! b = int i \<and> strs ! i = s)"
      "\<forall>j<k. \<exists>i<length strs. data ! ((?h + j) mod ?n) = int i \<and> strs ! i \<noteq> s"
    using probe_stops_in_table [OF st h t room ids, of s] by blast
  have "data ! b = INVALID_STR_ID" using bk(5) new by auto
  moreover have "\<forall>j<k. data ! ((?h + j) mod ?n) \<noteq> INVALID_STR_ID"
    using bk(6) by (auto simp: INVALID_STR_ID_def)
  ultimately show ?thesis using bk(1-4) by blast
qed

section \<open>Rebuilding the bucket array\<close>

lemma unique_probe_inserts:
  assumes t: "table_ok strs ids data" and fin: "finite ids" and room: "card ids < length data"
    and new: "i \<notin> ids"
  shows "\<exists>b. computeUniqueBucketWithHash (rk_hash (strs ! i)) data = Some (Inr b) \<and>
           b < length data \<and> table_ok strs (insert i ids) (data[b := int i])"
proof -
  have npos: "0 < length data" and nle: "length data \<le> 2 ^ 32"
    using t by (simp_all add: table_ok_def)
  have "INVALID_STR_ID \<in> set data" using t fin room by (rule table_has_empty_slot)
  from computeUniqueBucketWithHash_stops [OF npos nle this, of "rk_hash (strs ! i)"]
  obtain b k where bk: "computeUniqueBucketWithHash (rk_hash (strs ! i)) data = Some (Inr b)"
      "b < length data" "k < length data"
      "b = (first_bucket (rk_hash (strs ! i)) (length data) + k) mod length data"
      "data ! b = INVALID_STR_ID"
      "\<forall>j<k. data ! ((first_bucket (rk_hash (strs ! i)) (length data) + j) mod length data)
               \<noteq> INVALID_STR_ID"
    by blast
  from table_ok_insert [OF t new bk(4,5,6,3)] bk(1,2) show ?thesis by blast
qed

lemma rehash_ids_ok:
  assumes st: "storage_holds cfg d strs" and small: "length strs < 2 ^ 31"
    and m: "m \<le> length strs"
  shows "k \<le> m \<Longrightarrow> m \<le> length new \<Longrightarrow> table_ok strs {0..<k} new \<Longrightarrow>
         \<exists>r. rehash_ids cfg d [k..<m] new = Some (Inr r) \<and> length r = length new \<and>
             table_ok strs {0..<m} r"
proof (induction "m - k" arbitrary: k new rule: less_induct)
  case less
  show ?case
  proof (cases "k = m")
    case True
    then show ?thesis using less.prems by simp
  next
    case False
    with less.prems have lt: "k < m" by simp
    then have klen: "k < length strs" using m by simp
    have str: "getStringChecked cfg d (to_int32 k) = Inr (strs ! k)"
      using getStringChecked_stored [OF st klen] klen small by (simp add: to_int32_small)
    have "card {0..<k} < length new" using lt less.prems by simp
    then obtain b where b: "computeUniqueBucketWithHash (rk_hash (strs ! k)) new = Some (Inr b)"
        "b < length new" "table_ok strs (insert k {0..<k}) (new[b := int k])"
      using unique_probe_inserts [OF less.prems(3), of k] by auto
    have "insert k {0..<k} = {0..<Suc k}" by auto
    with b(3) have t': "table_ok strs {0..<Suc k} (new[b := int k])" by simp
    have "m \<le> length (new[b := int k])" using less.prems by simp
    moreover have "m - Suc k < m - k" "Suc k \<le> m" using lt by simp_all
    ultimately obtain r where r: "rehash_ids cfg d [Suc k..<m] (new[b := int k]) = Some (Inr r)"
        "length r = length new" "table_ok strs {0..<m} r"
      using less.hyps [of "Suc k" "new[b := int k]"] t' by auto
    have "rehash_ids cfg d [k..<m] new = Some (Inr r)"
      using lt str b(1) r(1) klen small
      by (simp add: upt_conv_Cons bindP_def to_int32_small)
    with r show ?thesis by blast
  qed
qed

text \<open>The ids held by the first \<open>p\<close> slots of a bucket array.\<close>

definition ids_before :: "int list \<Rightarrow> nat \<Rightarrow> nat set" where
  "ids_before data p = {i. \<exists>q<p. data ! q = int i}"

lemma ids_before_Suc:
  "ids_before data (Suc p) =
     (if 0 \<le> data ! p then insert (nat (data ! p)) (ids_before data p) else ids_before data p)"
  by (auto simp: ids_before_def less_Suc_eq)

lemma ids_before_subset:
  assumes "table_ok strs {0..<n} data" and "p \<le> length data"
  shows "ids_before data p \<subseteq> {0..<n}"
proof
  fix i assume "i \<in> ids_before data p"
  then obtain q where q: "q < p" "data ! q = int i" by (auto simp: ids_before_def)
  then have "q < length data" using assms(2) by simp
  then have "data ! q = INVALID_STR_ID \<or> nat (data ! q) \<in> {0..<n}"
    using assms(1) by (auto simp: table_ok_def)
  then show "i \<in> {0..<n}" using q(2) by (auto simp: INVALID_STR_ID_def)
qed

lemma ids_before_all:
  assumes "table_ok strs {0..<n} data"
  shows "ids_before data (length data) = {0..<n}"
proof
  show "ids_before data (length data) \<subseteq> {0..<n}"
    using assms by (rule ids_before_subset) simp
  show "{0..<n} \<subseteq> ids_before data (length data)"
  proof
    fix i assume "i \<in> {0..<n}"
    from table_ok_reach [OF assms this] obtain k where
      "data ! ((first_bucket (rk_hash (strs ! i)) (length data) + k) mod length data) = int i"
      by blast
    moreover have "(first_bucket (rk_hash (strs ! i)) (length data) + k) mod length data < length data"
      using assms by (simp add: table_ok_def)
    ultimately show "i \<in> ids_before data (length data)" unfolding ids_before_def by blast
  qed
qed

lemma rehash_slots_ok:
  assumes old: "table_ok strs {0..<n} data" and n: "n \<le> length strs" "n < length new0"
    and hashes: "\<forall>i<n. i < length (rk_hashes d) \<and> rk_hashes d ! i = rk_hash (strs ! i)"
  shows "p \<le> length data \<Longrightarrow> length new = length new0 \<Longrightarrow>
         table_ok strs (ids_before data p) new \<Longrightarrow>
         \<exists>r. rehash_slots d (drop p data) new = Some (Inr r) \<and> length r = length new0 \<and>
             table_ok strs {0..<n} r"
proof (induction "length data - p" arbitrary: p new rule: less_induct)
  case less
  show ?case
  proof (cases "p = length data")
    case True
    then show ?thesis using less.prems ids_before_all [OF old] by simp
  next
    case False
    with less.prems have lt: "p < length data" by simp
    have dr: "drop p data = data ! p # drop (Suc p) data"
      using lt by (simp add: Cons_nth_drop_Suc)
    have meas: "length data - Suc p < length data - p" "Suc p \<le> length data"
      using lt by simp_all
    show ?thesis
    proof (cases "data ! p = INVALID_STR_ID")
      case True
      then have "ids_before data (Suc p) = ids_before data p"
        by (simp add: ids_before_Suc INVALID_STR_ID_def)
      with less.prems have "table_ok strs (ids_before data (Suc p)) new" by simp
      from less.hyps [OF meas(1) meas(2) less.prems(2) this]
      show ?thesis using True by (simp add: dr)
    next
      case False
      then obtain i where i: "i < n" "data ! p = int i"
        using old lt by (auto simp: table_ok_def intro: that [of "nat (data ! p)"])
      have sub: "ids_before data p \<subseteq> {0..<n}"
        using ids_before_subset [OF old] less.prems(1) by simp
      then have fin: "finite (ids_before data p)" by (rule finite_subset) simp
      have "card (ids_before data p) \<le> card {0..<n}"
        using sub by (intro card_mono) simp_all
      then have room: "card (ids_before data p) < length new"
        using n(2) less.prems(2) by simp
      have fresh: "i \<notin> ids_before data p"
      proof
        assume "i \<in> ids_before data p"
        then obtain q where q: "q < p" "data ! q = int i" by (auto simp: ids_before_def)
        then have "q = p"
          using old lt i(2) False by (auto simp: table_ok_def)
        with q(1) show False by simp
      qed
      from unique_probe_inserts [OF less.prems(3) fin room fresh]
      obtain b where b: "computeUniqueBucketWithHash (rk_hash (strs ! i)) new = Some (Inr b)"
          "b < length new" "table_ok strs (insert i (ids_before data p)) (new[b := int i])"
        by blast
      have "ids_before data (Suc p) = insert i (ids_before data p)"
        using i(2) by (simp add: ids_before_Suc)
      with b(3) have t': "table_ok strs (ids_before data (Suc p)) (new[b := int i])" by simp
      have len: "length (new[b := int i]) = length new0" using less.prems(2) by simp
      from less.hyps [OF meas(1) meas(2) len t']
      obtain r where r: "rehash_slots d (drop (Suc p) data) (new[b := int i]) = Some (Inr r)"
          "length r = length new0" "table_ok strs {0..<n} r"
        by blast
      have hi: "i < length (rk_hashes d)" "rk_hashes d ! i = rk_hash (strs ! i)"
        using hashes i(1) by simp_all
      have "rehash_slots d (drop p data) new = Some (Inr r)"
        using False i(2) hi b(1) r(1)
        by (simp add: dr bindP_def)
      with r show ?thesis by blast
    qed
  qed
qed

section \<open>Adding a record\<close>

lemma storage_holds_index_update [simp]:
  "storage_holds cfg (d\<lparr>str_ids := x\<rparr>) strs = storage_holds cfg d strs"
  "storage_holds cfg (d\<lparr>rk_hashes := y\<rparr>) strs = storage_holds cfg d strs"
  "storage_holds cfg (d\<lparr>str_count := c\<rparr>) strs = storage_holds cfg d strs"
  by (simp_all add: storage_holds_def entry_holds_def fds_checked_def)

lemma storage_holds_invalidate [simp]:
  "storage_holds cfg (invalidateInvertedIndex d) strs = storage_holds cfg d strs"
  by (simp add: storage_holds_def entry_holds_def fds_checked_def invalidateInvertedIndex_def)

lemma dict_inv_room:
  assumes "dict_inv cfg d strs"
  shows "length strs < length (str_ids d)"
  using assms by (auto simp: dict_inv_def fill_bound_def)

lemma table_ok_cong:
  assumes "\<forall>i\<in>ids. strs' ! i = strs ! i"
  shows "table_ok strs' ids data = table_ok strs ids data"
  using assms by (simp add: table_ok_def)

lemma pow2_double_fits:
  assumes "n = 2 ^ m" and "(n::nat) < 2 ^ 32"
  shows "2 * n \<le> 2 ^ 32"
proof -
  have "(2::nat) ^ m < 2 ^ 32" using assms by simp
  then have "m < 32" by (rule power_less_imp_less_exp [rotated]) simp
  then have "Suc m \<le> 32" by simp
  then have "(2::nat) ^ Suc m \<le> 2 ^ 32" by (rule power_increasing) simp
  then show ?thesis using assms(1) by simp
qed

lemma increaseCapacity_ok:
  assumes inv: "dict_inv cfg d strs" and cfg: "config_ok cfg" and high: "fillRateIsHigh d"
  shows "\<exists>d'. increaseCapacity cfg d = Some (Inr d') \<and>
           d' = d\<lparr>str_ids := str_ids d', rk_hashes := rk_hashes d'\<rparr> \<and>
           length (str_ids d') = 2 * length (str_ids d) \<and>
           table_ok strs {0..<length strs} (str_ids d') \<and> hashes_ok d' strs"
proof -
  let ?n = "length strs" and ?len = "length (str_ids d)"
  let ?new = "replicate (?len * 2) INVALID_STR_ID"
  have cnt: "str_count d = ?n" and st: "storage_holds cfg d strs"
    and t: "table_ok strs {0..<?n} (str_ids d)" and h: "hashes_ok d strs"
    and small: "?n < 2 ^ 31" and fb: "fill_bound d"
    using inv cfg by (simp_all add: dict_inv_def config_ok_def)
  have room: "?n < ?len" using inv by (rule dict_inv_room)
  have "?len < 2 * ?n" using high cnt by (simp add: fillRateIsHigh_def)
  then have "?len < 2 ^ 32" using small by simp
  moreover obtain m where "?len = 2 ^ m" using fb by (auto simp: fill_bound_def)
  ultimately have fits: "2 * ?len \<le> 2 ^ 32" using pow2_double_fits by blast
  have lpos: "0 < ?len" using room by (cases "str_ids d") auto
  have empty: "table_ok strs {} ?new"
    using table_ok_empty [of "?len * 2" strs] fits lpos by simp
  show ?thesis
  proof (cases "materialize_hashes d")
    case True
    then have hs: "length (rk_hashes d) = ?len" "\<forall>i<?n. rk_hashes d ! i = rk_hash (strs ! i)"
      using h by (simp_all add: hashes_ok_def)
    have hashes: "\<forall>i<?n. i < length (rk_hashes d) \<and> rk_hashes d ! i = rk_hash (strs ! i)"
      using hs room by simp
    have "table_ok strs (ids_before (str_ids d) 0) ?new"
      using empty by (simp add: ids_before_def)
    from rehash_slots_ok [OF t _ _ hashes _ _ this, of ?new] room
    obtain r where r: "rehash_slots d (str_ids d) ?new = Some (Inr r)"
        "length r = 2 * ?len" "table_ok strs {0..<?n} r"
      by auto
    let ?d' = "d\<lparr>rk_hashes := rk_hashes d @ replicate (length (rk_hashes d)) 0, str_ids := r\<rparr>"
    have "increaseCapacity cfg d = Some (Inr ?d')"
      using True r(1) by (simp add: increaseCapacity_def bindP_def)
    moreover have "hashes_ok ?d' strs"
      using hs r(2) room by (simp add: hashes_ok_def nth_append)
    ultimately show ?thesis using r(2,3) by (intro exI [of _ ?d']) simp
  next
    case False
    from rehash_ids_ok [OF st small le_refl, of 0 ?new] room empty
    obtain r where r: "rehash_ids cfg d [0..<?n] ?new = Some (Inr r)"
        "length r = 2 * ?len" "table_ok strs {0..<?n} r"
      by auto
    let ?d' = "d\<lparr>str_ids := r\<rparr>"
    have "increaseCapacity cfg d = Some (Inr ?d')"
      using False r(1) cnt by (simp add: increaseCapacity_def bindP_def)
    moreover have "hashes_ok ?d' strs" using False by (simp add: hashes_ok_def)
    ultimately show ?thesis using r(2,3) by (intro exI [of _ ?d']) simp
  qed
qed

lemma length_pos_if_less: "k < length xs \<Longrightarrow> 0 < length xs"
  by (cases xs) auto

text \<open>The state after \<^verbatim>\<open>appendToStorage\<close>, the installation of the new id in the bucket
  and the increment of \<open>str_count\<close>.\<close>

definition installed :: "config \<Rightarrow> dict \<Rightarrow> str \<Rightarrow> nat \<Rightarrow> dict" where
  "installed cfg d str bucket =
     (let d2 = appended cfg d str;
          d3 = d2\<lparr>str_ids := (str_ids d2)[bucket := to_int32 (str_count d2)]\<rparr>;
          d4 = (if materialize_hashes d3
                then d3\<lparr>rk_hashes := (rk_hashes d3)[str_count d3 := rk_hash str]\<rparr> else d3)
      in d4\<lparr>str_count := str_count d4 + 1\<rparr>)"

lemma installed_fields [simp]:
  "str_count (installed cfg d s b) = str_count d + 1"
  "str_ids (installed cfg d s b) = (str_ids d)[b := to_int32 (str_count d)]"
  "rk_hashes (installed cfg d s b) =
     (if materialize_hashes d then (rk_hashes d)[str_count d := rk_hash s] else rk_hashes d)"
  "materialize_hashes (installed cfg d s b) = materialize_hashes d"
  "isTemp (installed cfg d s b) = isTemp d"
  "like_cache (installed cfg d s b) = like_cache d"
  "regex_cache (installed cfg d s b) = regex_cache d"
  "equal_cache (installed cfg d s b) = equal_cache d"
  "compare_cache (installed cfg d s b) = compare_cache d"
  "sorted_cache (installed cfg d s b) = sorted_cache d"
  by (simp_all add: installed_def Let_def)

lemma storage_holds_installed:
  "storage_holds cfg (installed cfg d s b) strs = storage_holds cfg (appended cfg d s) strs"
  by (simp add: installed_def Let_def)

lemma install_ok:
  assumes cfg: "config_ok cfg" and st: "storage_holds cfg d strs"
    and cnt: "str_count d = length strs" and t: "table_ok strs {0..<length strs} (str_ids d)"
    and h: "hashes_ok d strs" and room: "length strs < length (str_ids d)"
    and new: "s \<notin> set strs" and len: "length s \<le> MAX_STRLEN cfg"
    and cap: "length strs < MAX_STRCOUNT cfg"
    and b: "b = (first_bucket (rk_hash s) (length (str_ids d)) + k) mod length (str_ids d)"
      "k < length (str_ids d)" "str_ids d ! b = INVALID_STR_ID"
      "\<forall>j<k. str_ids d ! ((first_bucket (rk_hash s) (length (str_ids d)) + j) mod length (str_ids d))
              \<noteq> INVALID_STR_ID"
  shows "storage_holds cfg (installed cfg d s b) (strs @ [s])"
    and "table_ok (strs @ [s]) {0..<length (strs @ [s])} (str_ids (installed cfg d s b))"
    and "hashes_ok (installed cfg d s b) (strs @ [s])"
    and "str_ids (installed cfg d s b) ! b = int (length strs)"
proof -
  let ?n = "length strs"
  have small: "?n < 2 ^ 31" using cfg cap by (simp add: config_ok_def)
  have id: "to_int32 (str_count d) = int ?n" using cnt small by (simp add: to_int32_small)
  show "storage_holds cfg (installed cfg d s b) (strs @ [s])"
    using storage_holds_appended [OF cfg st cnt len cap] by (simp add: storage_holds_installed)
  have "table_ok (strs @ [s]) {0..<?n} (str_ids d)"
    using t table_ok_cong [of "{0..<?n}" "strs @ [s]" strs] by (simp add: nth_append)
  moreover have "?n \<notin> {0..<?n}" by simp
  moreover have "(strs @ [s]) ! ?n = s" by simp
  ultimately have "table_ok (strs @ [s]) (insert ?n {0..<?n}) ((str_ids d)[b := int ?n])"
    using b by (intro table_ok_insert [where k = k]) simp_all
  moreover have "insert ?n {0..<?n} = {0..<length (strs @ [s])}" by auto
  ultimately show "table_ok (strs @ [s]) {0..<length (strs @ [s])} (str_ids (installed cfg d s b))"
    by (simp add: id)
  show "hashes_ok (installed cfg d s b) (strs @ [s])"
    using h room cnt by (auto simp: hashes_ok_def nth_append nth_list_update less_Suc_eq)
  have "0 < length (str_ids d)" using b(2) by (rule length_pos_if_less)
  then have "b < length (str_ids d)" unfolding b(1) by (rule mod_less_divisor)
  then show "str_ids (installed cfg d s b) ! b = int ?n" by (simp add: id)
qed

lemma add_record_installs:
  assumes cfg: "config_ok cfg" and st: "storage_holds cfg d1 strs"
    and cnt: "str_count d1 = length strs" and len: "length s \<le> MAX_STRLEN cfg"
    and h: "hashes_ok d1 strs" and room: "length strs < length (str_ids d1)"
  shows "bindP (Some (appendToStorage cfg d1 s)) (\<lambda>d2.
          let d3 = d2\<lparr>str_ids := (str_ids d2)[b := to_int32 (str_count d2)]\<rparr> in
          if materialize_hashes d3 \<and> length (rk_hashes d3) \<le> str_count d3
          then Some (Inl OutOfBounds)
          else
            let d4 = (if materialize_hashes d3
                      then d3\<lparr>rk_hashes := (rk_hashes d3)[str_count d3 := rk_hash s]\<rparr> else d3)
            in Some (Inr (d4\<lparr>str_count := str_count d4 + 1\<rparr>, b)))
         = Some (Inr (installed cfg d1 s b, b))"
  using h room cnt
  by (auto simp: appendToStorage_appended [OF cfg st cnt len] bindP_def installed_def Let_def
        hashes_ok_def)

lemma add_record_ok:
  assumes inv: "dict_inv cfg d strs" and cfg: "config_ok cfg"
    and new: "s \<notin> set strs" and len: "length s \<le> MAX_STRLEN cfg"
    and cap: "length strs < MAX_STRCOUNT cfg"
    and b: "b = (first_bucket (rk_hash s) (length (str_ids d)) + k) mod length (str_ids d)"
      "k < length (str_ids d)" "str_ids d ! b = INVALID_STR_ID"
      "\<forall>j<k. str_ids d ! ((first_bucket (rk_hash s) (length (str_ids d)) + j) mod length (str_ids d))
              \<noteq> INVALID_STR_ID"
  shows "\<exists>d1 b'. add_record cfg d (rk_hash s) s b = Some (Inr (installed cfg d1 s b', b')) \<and>
           d1 = d\<lparr>str_ids := str_ids d1, rk_hashes := rk_hashes d1\<rparr> \<and>
           dict_inv cfg (installed cfg d1 s b') (strs @ [s]) \<and>
           str_ids (installed cfg d1 s b') ! b' = int (length strs)"
proof -
  let ?n = "length strs"
  have cnt: "str_count d = ?n" and st: "storage_holds cfg d strs"
    and t: "table_ok strs {0..<?n} (str_ids d)" and h: "hashes_ok d strs"
    and fb: "fill_bound d" and three: "3 \<le> length (str_ids d)" and dist: "distinct strs"
    using inv by (simp_all add: dict_inv_def)
  have room: "?n < length (str_ids d)" using inv by (rule dict_inv_room)
  have chk: "str_count d < MAX_STRCOUNT cfg" using cnt cap by simp
  have "\<exists>d1 b' k'. (if fillRateIsHigh d
               then bindP (increaseCapacity cfg d) (\<lambda>d'.
                      bindP (computeBucket cfg d' (rk_hash s) s (str_ids d') False) (\<lambda>bucket'.
                        Some (Inr (d', bucket'))))
               else Some (Inr (d, b))) = Some (Inr (d1, b')) \<and>
         d1 = d\<lparr>str_ids := str_ids d1, rk_hashes := rk_hashes d1\<rparr> \<and>
         length (str_ids d) \<le> length (str_ids d1) \<and>
         table_ok strs {0..<?n} (str_ids d1) \<and> hashes_ok d1 strs \<and>
         b' = (first_bucket (rk_hash s) (length (str_ids d1)) + k') mod length (str_ids d1) \<and>
         k' < length (str_ids d1) \<and> str_ids d1 ! b' = INVALID_STR_ID \<and>
         (\<forall>j<k'. str_ids d1 ! ((first_bucket (rk_hash s) (length (str_ids d1)) + j) mod length (str_ids d1))
              \<noteq> INVALID_STR_ID)"
  proof (cases "fillRateIsHigh d")
    case True
    from increaseCapacity_ok [OF inv cfg True]
    obtain d1 where d1: "increaseCapacity cfg d = Some (Inr d1)"
        "d1 = d\<lparr>str_ids := str_ids d1, rk_hashes := rk_hashes d1\<rparr>"
        "length (str_ids d1) = 2 * length (str_ids d)"
        "table_ok strs {0..<?n} (str_ids d1)" "hashes_ok d1 strs"
      by blast
    have st1: "storage_holds cfg d1 strs"
      by (subst d1(2)) (simp add: st)
    have room1: "?n < length (str_ids d1)" "?n \<le> length (str_ids d1)"
      using room d1(3) by simp_all
    from probe_misses_new [OF st1 d1(5,4) room1 new]
    obtain b' k' where bk: "computeBucket cfg d1 (rk_hash s) s (str_ids d1) False = Some (Inr b')"
        "k' < length (str_ids d1)"
        "b' = (first_bucket (rk_hash s) (length (str_ids d1)) + k') mod length (str_ids d1)"
        "str_ids d1 ! b' = INVALID_STR_ID"
        "\<forall>j<k'. str_ids d1 ! ((first_bucket (rk_hash s) (length (str_ids d1)) + j) mod length (str_ids d1))
              \<noteq> INVALID_STR_ID"
      by blast
    show ?thesis
      apply (rule exI [of _ d1], rule exI [of _ b'], rule exI [of _ k'])
      using True d1 bk by (simp add: bindP_def)
  next
    case False
    show ?thesis
      apply (rule exI [of _ d], rule exI [of _ b], rule exI [of _ k])
      using False t h b by simp
  qed
  then obtain d1 b' k' where pre:
      "(if fillRateIsHigh d
               then bindP (increaseCapacity cfg d) (\<lambda>d'.
                      bindP (computeBucket cfg d' (rk_hash s) s (str_ids d') False) (\<lambda>bucket'.
                        Some (Inr (d', bucket'))))
               else Some (Inr (d, b))) = Some (Inr (d1, b'))"
      and d1: "d1 = d\<lparr>str_ids := str_ids d1, rk_hashes := rk_hashes d1\<rparr>"
      and grow: "length (str_ids d) \<le> length (str_ids d1)"
      and t1: "table_ok strs {0..<?n} (str_ids d1)" and h1: "hashes_ok d1 strs"
      and b': "b' = (first_bucket (rk_hash s) (length (str_ids d1)) + k') mod length (str_ids d1)"
         "k' < length (str_ids d1)" "str_ids d1 ! b' = INVALID_STR_ID"
         "\<forall>j<k'. str_ids d1 ! ((first_bucket (rk_hash s) (length (str_ids d1)) + j) mod length (str_ids d1))
              \<noteq> INVALID_STR_ID"
    by blast
  have st1: "storage_holds cfg d1 strs" by (subst d1) (simp add: st)
  have cnt1: "str_count d1 = ?n" by (subst d1) (simp add: cnt)
  have room1: "?n < length (str_ids d1)" using room grow by simp
  let ?d' = "installed cfg d1 s b'"
  have run: "add_record cfg d (rk_hash s) s b = Some (Inr (?d', b'))"
    unfolding add_record_def
    using chk pre add_record_installs [OF cfg st1 cnt1 len h1 room1, of b']
    by (simp add: bindP_def)
  note post = install_ok [OF cfg st1 cnt1 t1 h1 room1 new len cap b']
  have "fill_bound ?d'" using add_record_fill_bound [OF run fb] .
  moreover have "3 \<le> length (str_ids ?d')" using three grow by simp
  moreover have "distinct (strs @ [s])" using dist new by simp
  ultimately have "dict_inv cfg ?d' (strs @ [s])"
    unfolding dict_inv_def using post(1-3) cnt1 cap by simp
  with run d1 post(4) show ?thesis by blast
qed

section \<open>Inserting strings\<close>

lemma dict_inv_invalidate [simp]:
  "dict_inv cfg (invalidateInvertedIndex d) strs = dict_inv cfg d strs"
proof -
  have "str_count (invalidateInvertedIndex d) = str_count d"
    "str_ids (invalidateInvertedIndex d) = str_ids d"
    "hashes_ok (invalidateInvertedIndex d) strs = hashes_ok d strs"
    by (simp_all add: invalidateInvertedIndex_def hashes_ok_def)
  then show ?thesis by (simp add: dict_inv_def)
qed

lemma invalidate_fields [simp]:
  "str_ids (invalidateInvertedIndex d) = str_ids d"
  "str_count (invalidateInvertedIndex d) = str_count d"
  "sorted_cache (invalidateInvertedIndex d) = sorted_cache d"
  "isTemp (invalidateInvertedIndex d) = isTemp d"
  "materialize_hashes (invalidateInvertedIndex d) = materialize_hashes d"
  "like_cache (invalidateInvertedIndex d) = Map.empty"
  "regex_cache (invalidateInvertedIndex d) = Map.empty"
  "equal_cache (invalidateInvertedIndex d) = Map.empty"
  "compare_cache (invalidateInvertedIndex d) = []"
  by (simp_all add: invalidateInvertedIndex_def)

lemma getOrAddImpl_new:
  assumes inv: "dict_inv cfg d strs" and cfg: "config_ok cfg"
    and s: "s \<noteq> []" "length s \<le> MAX_STRLEN cfg" "s \<notin> set strs"
    and cap: "length strs < MAX_STRCOUNT cfg"
  shows "\<exists>d'. getOrAddImpl cfg d s = Some (Inr (d', int (length strs))) \<and>
           dict_inv cfg d' (strs @ [s]) \<and> sorted_cache d' = sorted_cache d \<and>
           equal_cache d' = Map.empty \<and> compare_cache d' = [] \<and> like_cache d' = Map.empty \<and>
           isTemp d' = isTemp d \<and> materialize_hashes d' = materialize_hashes d"
proof -
  have st: "storage_holds cfg d strs" and t: "table_ok strs {0..<length strs} (str_ids d)"
    and h: "hashes_ok d strs"
    using inv by (simp_all add: dict_inv_def)
  have room: "length strs < length (str_ids d)" "length strs \<le> length (str_ids d)"
    using dict_inv_room [OF inv] by simp_all
  from probe_misses_new [OF st h t room s(3)]
  obtain b k where bk: "computeBucket cfg d (rk_hash s) s (str_ids d) False = Some (Inr b)"
      "k < length (str_ids d)"
      "b = (first_bucket (rk_hash s) (length (str_ids d)) + k) mod length (str_ids d)"
      "str_ids d ! b = INVALID_STR_ID"
      "\<forall>j<k. str_ids d ! ((first_bucket (rk_hash s) (length (str_ids d)) + j) mod length (str_ids d))
              \<noteq> INVALID_STR_ID"
    by blast
  from add_record_ok [OF inv cfg s(3,2) cap bk(3,2,4,5)]
  obtain d1 b' where add: "add_record cfg d (rk_hash s) s b = Some (Inr (installed cfg d1 s b', b'))"
      "d1 = d\<lparr>str_ids := str_ids d1, rk_hashes := rk_hashes d1\<rparr>"
      "dict_inv cfg (installed cfg d1 s b') (strs @ [s])"
      "str_ids (installed cfg d1 s b') ! b' = int (length strs)"
    by blast
  let ?d' = "invalidateInvertedIndex (installed cfg d1 s b')"
  have same: "sorted_cache d1 = sorted_cache d" "isTemp d1 = isTemp d"
    "materialize_hashes d1 = materialize_hashes d"
    by (subst add(2), simp)+
  have "getOrAddImpl cfg d s = Some (Inr (?d', int (length strs)))"
    using s(1,2) bk(1,4) add(1,4)
    by (simp add: getOrAddImpl_def bindP_def Let_def)
  then show ?thesis using add(3) same by (intro exI [of _ ?d']) simp
qed

lemma getOrAddImpl_old:
  assumes inv: "dict_inv cfg d strs" and i: "i < length strs"
    and s: "strs ! i \<noteq> []" "length (strs ! i) \<le> MAX_STRLEN cfg"
  shows "getOrAddImpl cfg d (strs ! i) = Some (Inr (d, int i))"
proof -
  have st: "storage_holds cfg d strs" and t: "table_ok strs {0..<length strs} (str_ids d)"
    and h: "hashes_ok d strs" and dist: "distinct strs"
    using inv by (simp_all add: dict_inv_def)
  have room: "length strs < length (str_ids d)" "length strs \<le> length (str_ids d)"
    using dict_inv_room [OF inv] by simp_all
  from probe_finds_stored [OF st h t room dist i]
  obtain b where "computeBucket cfg d (rk_hash (strs ! i)) (strs ! i) (str_ids d) False = Some (Inr b)"
      "str_ids d ! b = int i"
    by blast
  then show ?thesis
    using s by (simp add: getOrAddImpl_def bindP_def Let_def INVALID_STR_ID_def)
qed


lemma StringDictionary_fresh:
  assumes cfg: "config_ok cfg"
    and opened: "StringDictionary cfg folder' isTemp' False materializeHashes initial_capacity = Some (Inr d0)"
    and loc: "isTemp' \<or> folder' \<noteq> None"
  shows "rk_hashes d0 = replicate initial_capacity 0"
    and "storage_holds cfg d0 []"
    and "isTemp d0 = isTemp'" and "materialize_hashes d0 = materializeHashes"
    and "sorted_cache d0 = []" and "equal_cache d0 = Map.empty" and "compare_cache d0 = []"
proof -
  have pos: "0 < CANARY_BUFF_SIZE cfg" using cfg by (simp add: config_ok_def)
  have sz: "0 < sizeof_StringIdxEntry cfg" using cfg by (simp add: config_ok_def)
  show "rk_hashes d0 = replicate initial_capacity 0"
    and "isTemp d0 = isTemp'" and "materialize_hashes d0 = materializeHashes"
    and "sorted_cache d0 = []" and "equal_cache d0 = Map.empty" and "compare_cache d0 = []"
    using opened loc
    by (auto simp: StringDictionary_def empty_dict_def Let_def bindP_Some_Inr open_files_def
          bindE_Inr addPayloadCapacity_def addOffsetCapacity_def
          split: if_splits option.splits)
  show "storage_holds cfg d0 []"
    using opened loc pos sz
    by (auto simp: StringDictionary_def empty_dict_def Let_def bindP_Some_Inr open_files_def
          bindE_Inr addPayloadCapacity_def addOffsetCapacity_def storage_holds_def
          fds_checked_def checked_open_def
          split: if_splits option.splits)
qed

lemma StringDictionary_dict_inv:
  assumes cfg: "config_ok cfg"
    and opened: "StringDictionary cfg folder' isTemp' False materializeHashes initial_capacity = Some (Inr d0)"
    and loc: "isTemp' \<or> folder' \<noteq> None"
    and cap: "4 \<le> initial_capacity" "initial_capacity \<le> 2 ^ 32"
  shows "dict_inv cfg d0 []"
proof -
  note ids = StringDictionary_str_ids [OF opened]
  note fresh = StringDictionary_fresh [OF cfg opened loc]
  have "0 < initial_capacity" using cap by simp
  from pow2_from_and [OF this StringDictionary_checked [OF opened loc]]
  obtain m where "initial_capacity = 2 ^ m" by blast
  then have "fill_bound d0" using ids by (simp add: fill_bound_def)
  moreover have "table_ok [] {0..<length ([]::str list)} (str_ids d0)"
    using table_ok_empty [of initial_capacity "[]"] cap ids by simp
  moreover have "hashes_ok d0 []" using ids fresh(1) by (simp add: hashes_ok_def)
  ultimately show ?thesis
    using ids fresh(2) cap by (simp add: dict_inv_def)
qed


section \<open>A full bucket array\<close>









lemma example_cfg_ok: "config_ok example_cfg"
  by (simp add: config_ok_def example_cfg_def CANARY_BUFF_SIZE_def)


section \<open>The bulk insert of 256 strings\<close>



lemma getOrAddBulk_step_old:
  assumes inv: "dict_inv cfg d strs" and i: "i < length strs"
    and s: "strs ! i \<noteq> []" "length (strs ! i) \<le> MAX_STRLEN cfg"
  shows "getOrAddBulk_step cfg T (d, encoded_vec) (strs ! i) =
           Some (Inr (d, encoded_vec @ [cast_to T (int i)]))"
proof -
  have st: "storage_holds cfg d strs" and t: "table_ok strs {0..<length strs} (str_ids d)"
    and h: "hashes_ok d strs" and dist: "distinct strs"
    using inv by (simp_all add: dict_inv_def)
  have rm: "length strs < length (str_ids d)" "length strs \<le> length (str_ids d)"
    using dict_inv_room [OF inv] by simp_all
  from probe_finds_stored [OF st h t rm dist i]
  obtain b where "computeBucket cfg d (rk_hash (strs ! i)) (strs ! i) (str_ids d) False = Some (Inr b)"
      "str_ids d ! b = int i"
    by blast
  then show ?thesis
    using s by (simp add: getOrAddBulk_step_def bindP_def Let_def INVALID_STR_ID_def)
qed














section \<open>The scan caches\<close>

text \<open>The string an id of the sorted cache stands for, among the strings \<open>strs\<close> of the
  dictionary.\<close>

definition str_of :: "str list \<Rightarrow> int \<Rightarrow> str" where
  "str_of strs i = strs ! nat i"

text \<open>The sorted cache holds the ids below its length, each once, in the order of their
  strings.\<close>

definition sorted_ok :: "dict \<Rightarrow> str list \<Rightarrow> bool" where
  "sorted_ok d strs \<longleftrightarrow>
     distinct (sorted_cache d) \<and>
     set (sorted_cache d) = int ` {0..<length (sorted_cache d)} \<and>
     length (sorted_cache d) \<le> length strs \<and>
     sorted (map (str_of strs) (sorted_cache d))"

text \<open>The pair \<open>(index, diff)\<close> that the search of \<^verbatim>\<open>getCompare\<close> computes from the
  strings \<open>ss\<close> of the sorted cache.\<close>

definition search_index :: "str list \<Rightarrow> str \<Rightarrow> int \<times> int" where
  "search_index ss p =
     (let k = length (takeWhile (\<lambda>a. a < p) ss) in
      if k < length ss \<and> ss ! k = p then (int k, 0) else (int k - 1, 1))"

text \<open>The scan caches agree with the strings: the equality cache maps a pattern to its
  id, and the comparison cache holds search results on the complete sorted cache.\<close>

definition caches_ok :: "dict \<Rightarrow> str list \<Rightarrow> bool" where
  "caches_ok d strs \<longleftrightarrow>
     sorted_ok d strs \<and>
     (\<forall>p i. equal_cache d p = Some i \<longrightarrow> 0 \<le> i \<and> nat i < length strs \<and> strs ! nat i = p) \<and>
     (\<forall>p v. map_of (compare_cache d) p = Some v \<longrightarrow>
        length (sorted_cache d) = length strs \<and>
        v = search_index (map (str_of strs) (sorted_cache d)) p)"

text \<open>What the scans need of a state: the storage holds the distinct strings \<open>strs\<close>,
  and the scan caches agree with them. Nothing is asked of the bucket array.\<close>

definition store_inv :: "config \<Rightarrow> dict \<Rightarrow> str list \<Rightarrow> bool" where
  "store_inv cfg d strs \<longleftrightarrow>
     str_count d = length strs \<and> length strs \<le> MAX_STRCOUNT cfg \<and> distinct strs \<and>
     storage_holds cfg d strs"

definition scan_inv :: "config \<Rightarrow> dict \<Rightarrow> str list \<Rightarrow> bool" where
  "scan_inv cfg d strs \<longleftrightarrow> store_inv cfg d strs \<and> caches_ok d strs"

lemma dict_inv_store: "dict_inv cfg d strs \<Longrightarrow> store_inv cfg d strs"
  by (simp add: dict_inv_def store_inv_def)

lemma getStringUnlocked_stored:
  assumes "store_inv cfg d strs" and "config_ok cfg" and "i < length strs"
  shows "getStringUnlocked cfg d (to_int32 i) = Inr (strs ! i)"
proof -
  have small: "length strs < 2 ^ 31" using assms(1,2) by (simp add: store_inv_def config_ok_def)
  then have "to_int32 i = int i" using assms(3) by (simp add: to_int32_small)
  moreover have "to_int32 (str_count d) = int (length strs)"
    using assms(1) small by (simp add: to_int32_small store_inv_def)
  moreover have "getStringChecked cfg d (int i) = Inr (strs ! i)"
    using assms(1,3) by (intro getStringChecked_stored) (simp_all add: store_inv_def)
  ultimately show ?thesis using assms(3) by (simp add: getStringUnlocked_def)
qed

lemma congruent_step:
  fixes i s c :: nat
  assumes "s < i" and "i mod c = s mod c" and "0 < c"
  shows "s + c \<le> i"
proof (rule ccontr)
  assume "\<not> s + c \<le> i"
  then have lt: "i - s < c" using assms(1) by simp
  have "c dvd i - s"
    using assms(1,2) mod_eq_dvd_iff_nat [of s i c] by simp
  moreover have "0 < i - s" using assms(1) by simp
  ultimately have "c \<le> i - s" by (rule dvd_imp_le)
  then show False using lt by simp
qed

lemma scan_worker_set:
  "0 < worker_count \<Longrightarrow>
   \<forall>i<generation. getStringUnlocked cfg d (to_int32 i) = Inr (strs ! i) \<Longrightarrow>
   \<exists>r. scan_worker cfg d test worker_count generation string_id acc = Inr r \<and>
       set r = set acc \<union> {to_int32 i | i. string_id \<le> i \<and> i < generation \<and>
                      i mod worker_count = string_id mod worker_count \<and> test (strs ! i)}"
proof (induction cfg d test worker_count generation string_id acc rule: scan_worker.induct)
  case (1 cfg d test worker_count generation string_id acc)
  show ?case
  proof (cases "string_id < generation")
    case False
    then show ?thesis using 1(2) by (subst scan_worker.simps) auto
  next
    case True
    let ?acc = "if test (strs ! string_id) then acc @ [to_int32 string_id] else acc"
    have get: "getStringUnlocked cfg d (to_int32 string_id) = Inr (strs ! string_id)"
      using 1(3) True by simp
    have "\<exists>r. scan_worker cfg d test worker_count generation (string_id + worker_count) ?acc = Inr r \<and>
        set r = set ?acc \<union> {to_int32 i | i. string_id + worker_count \<le> i \<and> i < generation \<and>
                      i mod worker_count = (string_id + worker_count) mod worker_count \<and> test (strs ! i)}"
      using True 1(2) by (intro 1(1) [OF _ get _ 1(3)]) simp_all
    then obtain r where r: "scan_worker cfg d test worker_count generation (string_id + worker_count) ?acc = Inr r"
        "set r = set ?acc \<union> {to_int32 i | i. string_id + worker_count \<le> i \<and> i < generation \<and>
                      i mod worker_count = (string_id + worker_count) mod worker_count \<and> test (strs ! i)}"
      by blast
    have in_iff: "(string_id \<le> i \<and> i < generation \<and>
          i mod worker_count = string_id mod worker_count \<and> test (strs ! i)) =
        ((i = string_id \<and> test (strs ! string_id)) \<or>
         (string_id + worker_count \<le> i \<and> i < generation \<and>
           i mod worker_count = string_id mod worker_count \<and> test (strs ! i)))" for i
      using congruent_step [of string_id i worker_count] 1(2) True by (auto simp: le_less)
    have "scan_worker cfg d test worker_count generation string_id acc = Inr r"
      using True 1(2) get r(1) by (subst scan_worker.simps) simp
    moreover have "set r = set acc \<union> {to_int32 i | i. string_id \<le> i \<and> i < generation \<and>
                      i mod worker_count = string_id mod worker_count \<and> test (strs ! i)}"
      by (simp only: in_iff, simp only: r(2)) auto
    ultimately show ?thesis by blast
  qed
qed

lemma scan_workers_set:
  assumes pos: "0 < worker_count"
    and stored: "\<forall>i<generation. getStringUnlocked cfg d (to_int32 i) = Inr (strs ! i)"
  shows "set ws \<subseteq> {0..<worker_count} \<Longrightarrow>
         \<exists>r. scan_workers cfg d test worker_count generation ws = Inr r \<and>
           set r = {to_int32 i | i. i < generation \<and> i mod worker_count \<in> set ws \<and> test (strs ! i)}"
proof (induction ws)
  case Nil
  show ?case by simp
next
  case (Cons w ws)
  from Cons obtain r where r: "scan_workers cfg d test worker_count generation ws = Inr r"
      "set r = {to_int32 i | i. i < generation \<and> i mod worker_count \<in> set ws \<and> test (strs ! i)}"
    by auto
  from scan_worker_set [OF pos stored, of test w "[]"]
  obtain r0 where r0: "scan_worker cfg d test worker_count generation w [] = Inr r0"
      "set r0 = {to_int32 i | i. w \<le> i \<and> i < generation \<and>
                      i mod worker_count = w mod worker_count \<and> test (strs ! i)}"
    by auto
  have w: "w < worker_count" using Cons.prems by simp
  have "w \<le> i" if "i mod worker_count = w" for i
    using that mod_less_eq_dividend [of i worker_count] by simp
  then have "set r0 = {to_int32 i | i. i < generation \<and> i mod worker_count = w \<and> test (strs ! i)}"
    unfolding r0(2) using w by auto
  then have "set (r0 @ r) =
      {to_int32 i | i. i < generation \<and> i mod worker_count \<in> set (w # ws) \<and> test (strs ! i)}"
    using r(2) by auto
  then show ?case using r(1) r0(1) by (simp add: bindE_def)
qed

lemma parallel_scan_set:
  assumes inv: "store_inv cfg d strs" and cfg: "config_ok cfg" and threads: "0 < cpu_threads cfg"
    and gen: "generation \<le> length strs"
  shows "\<exists>r. parallel_scan cfg d test generation = Inr r \<and>
           set r = {int i | i. i < generation \<and> test (strs ! i)}"
proof -
  have stored: "\<forall>i<generation. getStringUnlocked cfg d (to_int32 i) = Inr (strs ! i)"
    using getStringUnlocked_stored [OF inv cfg] gen by simp
  have small: "length strs < 2 ^ 31" using inv cfg by (simp add: store_inv_def config_ok_def)
  from scan_workers_set [OF threads stored, of "[0..<cpu_threads cfg]" test]
  obtain r where r: "scan_workers cfg d test (cpu_threads cfg) generation [0..<cpu_threads cfg] = Inr r"
      "set r = {to_int32 i | i. i < generation \<and> i mod cpu_threads cfg \<in> set [0..<cpu_threads cfg] \<and>
                  test (strs ! i)}"
    by auto
  have "set r = {int i | i. i < generation \<and> test (strs ! i)}"
  proof -
    have a: "i mod cpu_threads cfg \<in> set [0..<cpu_threads cfg]" for i
      using threads by simp
    have b: "to_int32 i = int i" if "i < generation" for i
      using that gen small by (simp add: to_int32_small)
    show ?thesis unfolding r(2) using a b by force
  qed
  moreover have "str_count d = length strs" using inv by (simp add: store_inv_def)
  ultimately show ?thesis
    using r(1) threads gen by (simp add: parallel_scan_def Let_def)
qed

lemma store_inv_caches [simp]:
  "store_inv cfg (d\<lparr>equal_cache := ec\<rparr>) strs = store_inv cfg d strs"
  "store_inv cfg (d\<lparr>compare_cache := cc\<rparr>) strs = store_inv cfg d strs"
  "store_inv cfg (d\<lparr>sorted_cache := sc\<rparr>) strs = store_inv cfg d strs"
  by (simp_all add: store_inv_def storage_holds_def entry_holds_def fds_checked_def)

lemma matching_ids:
  assumes "distinct strs" and "i < length strs"
  shows "{int j | j. j < length strs \<and> strs ! j = strs ! i} = {int i}"
  using assms by (auto simp: nth_eq_iff_index_eq)

lemma getEquals_eq:
  assumes inv: "scan_inv cfg d strs" and cfg: "config_ok cfg" and threads: "0 < cpu_threads cfg"
  shows "\<exists>d' r. getEquals cfg d p ''='' (length strs) = Inr (d', r) \<and>
           set r = {int i | i. i < length strs \<and> strs ! i = p} \<and>
           scan_inv cfg d' strs \<and> sorted_cache d' = sorted_cache d"
proof (cases "equal_cache d p")
  case (Some eq_id)
  have dist: "distinct strs" using inv by (simp add: scan_inv_def store_inv_def)
  have "0 \<le> eq_id \<and> nat eq_id < length strs \<and> strs ! nat eq_id = p"
    using inv Some by (simp add: scan_inv_def caches_ok_def)
  then have "{int i | i. i < length strs \<and> strs ! i = p} = {eq_id}"
    using matching_ids [OF dist, of "nat eq_id"] by auto
  then show ?thesis using Some inv by (simp add: getEquals_def Let_def)
next
  case None
  have dinv: "store_inv cfg d strs" using inv by (simp add: scan_inv_def)
  from parallel_scan_set [OF dinv cfg threads order_refl, of "\<lambda>str. str = p"]
  obtain r where r: "parallel_scan cfg d (\<lambda>str. str = p) (length strs) = Inr r"
      "set r = {int i | i. i < length strs \<and> strs ! i = p}"
    by blast
  let ?d = "if 0 < length r then d\<lparr>equal_cache := (equal_cache d)(p \<mapsto> r ! 0)\<rparr> else d"
  have run: "getEquals cfg d p ''='' (length strs) = Inr (?d, r)"
    using None r(1) by (simp add: getEquals_def Let_def bindE_def)
  have "scan_inv cfg ?d strs"
  proof (cases "0 < length r")
    case False
    then show ?thesis using inv by simp
  next
    case True
    then have "r ! 0 \<in> set r" by simp
    then obtain i where i: "r ! 0 = int i" "i < length strs" "strs ! i = p"
      using r(2) by auto
    then show ?thesis
      using inv True by (auto simp: scan_inv_def caches_ok_def sorted_ok_def)
  qed
  moreover have "sorted_cache ?d = sorted_cache d" by simp
  ultimately show ?thesis using run r(2) by blast
qed

lemma mapE_fetch_string:
  assumes st: "storage_holds cfg d strs"
  shows "\<forall>x\<in>set ids. 0 \<le> x \<and> nat x < length strs \<Longrightarrow>
         mapE (fetch_string cfg d) ids = Inr (map (str_of strs) ids)"
proof (induction ids)
  case Nil
  show ?case by simp
next
  case (Cons x ids)
  have "fetch_string cfg d (int (nat x)) = Inr (strs ! nat x)"
    using Cons.prems by (intro fetch_string_stored [OF st]) simp
  then have "fetch_string cfg d x = Inr (str_of strs x)"
    using Cons.prems by (simp add: str_of_def)
  then show ?case using Cons by (simp add: bindE_def)
qed

text \<open>Pairs of a string and the id it belongs to.\<close>

definition tagged :: "str list \<Rightarrow> (str \<times> int) list \<Rightarrow> bool" where
  "tagged strs ps \<longleftrightarrow> (\<forall>pr\<in>set ps. fst pr = str_of strs (snd pr))"

lemma zip_tagged: "zip (map (str_of strs) ids) ids = map (\<lambda>i. (str_of strs i, i)) ids"
  by (induction ids) simp_all

lemma tagged_map_fst: "tagged strs ps \<Longrightarrow> map (str_of strs) (map snd ps) = map fst ps"
  by (simp add: tagged_def)

lemma tagged_distinct:
  assumes "tagged strs ps" and "distinct ps"
  shows "distinct (map snd ps)"
proof -
  have "inj_on snd (set ps)"
    using assms(1) by (auto simp: tagged_def inj_on_def prod_eq_iff)
  then show ?thesis using assms(2) by (simp add: distinct_map)
qed

lemma sortCache_sorted:
  assumes st: "storage_holds cfg d strs"
    and ids: "\<forall>x\<in>set ids. 0 \<le> x \<and> nat x < length strs" and dist: "distinct ids"
  shows "\<exists>r. sortCache cfg d ids = Inr r \<and> set r = set ids \<and> distinct r \<and>
           length r = length ids \<and> sorted (map (str_of strs) r)"
proof -
  let ?ps = "map (\<lambda>i. (str_of strs i, i)) ids"
  let ?r = "map snd (sort_key fst ?ps)"
  have run: "sortCache cfg d ids = Inr ?r"
    by (simp add: sortCache_def mapE_fetch_string [OF st ids] bindE_def zip_tagged)
  have tg: "tagged strs (sort_key fst ?ps)" by (auto simp: tagged_def)
  have "distinct ?ps" using dist by (simp add: distinct_map inj_on_def)
  then have "distinct ?r" using tg by (intro tagged_distinct) simp_all
  moreover have "set ?r = set ids" by (simp add: image_image)
  moreover have "sorted (map (str_of strs) ?r)"
    by (simp only: tagged_map_fst [OF tg] sorted_sort_key)
  ultimately show ?thesis using run by simp
qed

lemma merge_caches_set: "set (merge_caches ts ss) = set ts \<union> set ss"
  by (induction ts ss rule: merge_caches.induct) auto

lemma merge_caches_length: "length (merge_caches ts ss) = length ts + length ss"
  by (induction ts ss rule: merge_caches.induct) auto

lemma merge_caches_distinct:
  "distinct ts \<Longrightarrow> distinct ss \<Longrightarrow> set ts \<inter> set ss = {} \<Longrightarrow> distinct (merge_caches ts ss)"
  by (induction ts ss rule: merge_caches.induct) (auto simp: merge_caches_set)

lemma merge_caches_sorted:
  "sorted (map fst ts) \<Longrightarrow> sorted (map fst ss) \<Longrightarrow> sorted (map fst (merge_caches ts ss))"
proof (induction ts ss rule: merge_caches.induct)
  case (1 ss)
  then show ?case by simp
next
  case (2 t ts)
  then show ?case by simp
next
  case (3 t ts s ss)
  show ?case
  proof (cases "fst t < fst s")
    case True
    have "\<forall>y\<in>set (merge_caches ts (s # ss)). fst t \<le> fst y"
      using 3(3,4) True by (auto simp: merge_caches_set)
    then show ?thesis using 3 True by (simp add: string_lt_def)
  next
    case False
    have "\<forall>y\<in>set (merge_caches (t # ts) ss). fst s \<le> fst y"
      using 3(3,4) False by (auto simp: merge_caches_set)
    then show ?thesis using 3 False by (simp add: string_lt_def)
  qed
qed

lemma scan_inv_small:
  assumes "scan_inv cfg d strs" and "config_ok cfg"
  shows "length strs < 2 ^ 31" and "str_count d = length strs"
    and "storage_holds cfg d strs" and "distinct strs"
  using assms by (simp_all add: scan_inv_def store_inv_def config_ok_def)

lemma compare_cache_unfilled:
  assumes "scan_inv cfg d strs" and "length (sorted_cache d) < length strs"
  shows "compare_cache d = []"
proof (cases "compare_cache d")
  case Nil
  then show ?thesis .
next
  case (Cons e es)
  then have "map_of (compare_cache d) (fst e) = Some (snd e)" by simp
  then have "length (sorted_cache d) = length strs"
    using assms(1) unfolding scan_inv_def caches_ok_def by blast
  then show ?thesis using assms(2) by simp
qed

lemma buildSortedCache_complete:
  assumes inv: "scan_inv cfg d strs" and cfg: "config_ok cfg"
    and part: "length (sorted_cache d) < length strs"
  shows "\<exists>sc. buildSortedCache cfg d = Inr (d\<lparr>sorted_cache := sc\<rparr>) \<and>
           scan_inv cfg (d\<lparr>sorted_cache := sc\<rparr>) strs \<and> length sc = length strs"
proof -
  note facts = scan_inv_small [OF inv cfg]
  let ?m = "length (sorted_cache d)" and ?n = "length strs"
  let ?f = "str_of strs"
  have so: "distinct (sorted_cache d)" "set (sorted_cache d) = int ` {0..<?m}"
      "sorted (map ?f (sorted_cache d))"
    using inv by (simp_all add: scan_inv_def caches_ok_def sorted_ok_def)
  have temp: "map to_int32 [?m..<str_count d] = map int [?m..<?n]"
    using facts(1,2) by (simp add: to_int32_small)
  have t_ids: "\<forall>x\<in>set (map int [?m..<?n]). 0 \<le> x \<and> nat x < ?n" by auto
  have s_ids: "\<forall>x\<in>set (sorted_cache d). 0 \<le> x \<and> nat x < ?n"
    using so(2) part by auto
  have "distinct (map int [?m..<?n])" by (simp add: distinct_map)
  from sortCache_sorted [OF facts(3) t_ids this]
  obtain r where r: "sortCache cfg d (map int [?m..<?n]) = Inr r" "set r = int ` {?m..<?n}"
      "distinct r" "length r = ?n - ?m" "sorted (map ?f r)"
    by auto
  have r_ids: "\<forall>x\<in>set r. 0 \<le> x \<and> nat x < ?n" using r(2) by auto
  let ?ts = "map (\<lambda>i. (?f i, i)) r" and ?ss = "map (\<lambda>i. (?f i, i)) (sorted_cache d)"
  let ?sc = "map snd (merge_caches ?ts ?ss)"
  have run: "buildSortedCache cfg d = Inr (d\<lparr>sorted_cache := ?sc\<rparr>)"
    using r(1) temp
    by (simp add: buildSortedCache_def Let_def bindE_def mergeSortedCache_def
          mapE_fetch_string [OF facts(3) r_ids] mapE_fetch_string [OF facts(3) s_ids] zip_tagged)
  have tg: "tagged strs (merge_caches ?ts ?ss)"
    by (auto simp: tagged_def merge_caches_set)
  have "set r \<inter> set (sorted_cache d) = {}" using r(2) so(2) by auto
  then have "set ?ts \<inter> set ?ss = {}" by auto
  moreover have "distinct ?ts" "distinct ?ss"
    using r(3) so(1) by (simp_all add: distinct_map inj_on_def)
  ultimately have "distinct (merge_caches ?ts ?ss)" by (intro merge_caches_distinct)
  then have d1: "distinct ?sc" using tg by (intro tagged_distinct)
  have len: "length ?sc = ?n" using r(4) part by (simp add: merge_caches_length)
  have "set ?sc = set r \<union> set (sorted_cache d)"
    by (simp add: merge_caches_set image_Un image_image)
  also have "\<dots> = int ` {0..<?n}"
    using r(2) so(2) part by (auto simp: image_iff)
  finally have d2: "set ?sc = int ` {0..<length ?sc}" using len by simp
  have "sorted (map fst (merge_caches ?ts ?ss))"
    using r(5) so(3) by (intro merge_caches_sorted) (simp_all add: comp_def)
  then have d3: "sorted (map ?f ?sc)" by (simp only: tagged_map_fst [OF tg])
  have "compare_cache d = []" by (rule compare_cache_unfilled [OF inv part])
  then have "scan_inv cfg (d\<lparr>sorted_cache := ?sc\<rparr>) strs"
    using inv d1 d2 d3 len by (simp add: scan_inv_def caches_ok_def sorted_ok_def)
  then show ?thesis using run len by blast
qed

lemma cast_to_Int32_small:
  "- 1 \<le> x \<Longrightarrow> x < 2 ^ 31 \<Longrightarrow> cast_to Int32 x = x"
  by (simp add: sint_sbintrunc' signed_take_bit_int_eq_self)

lemma to_size_t_small: "0 \<le> i \<Longrightarrow> i < 2 ^ 64 \<Longrightarrow> to_size_t i = nat i"
  by (simp add: to_size_t_def)

lemma search_sorted_cache_index:
  assumes st: "storage_holds cfg d strs"
    and ids: "\<forall>x\<in>set (sorted_cache d). 0 \<le> x \<and> nat x < length strs"
    and ne: "sorted_cache d \<noteq> []" and small: "length (sorted_cache d) < 2 ^ 31"
  shows "search_sorted_cache cfg d p =
           Inr (search_index (map (str_of strs) (sorted_cache d)) p)"
proof -
  let ?ss = "map (str_of strs) (sorted_cache d)"
  let ?k = "length (takeWhile (\<lambda>a. a < p) ?ss)"
  have k: "?k \<le> length (sorted_cache d)"
    using length_takeWhile_le [of "\<lambda>a. a < p" ?ss] by simp
  then have k31: "int ?k < 2 ^ 31" using small by simp
  have last: "to_int32 (length (sorted_cache d) - 1) = int (length (sorted_cache d)) - 1"
    using ne small by (simp add: to_int32_small of_nat_diff Suc_leI)
  have c1: "cast_to Int32 (int ?k - 1) = int ?k - 1"
    using k31 by (intro cast_to_Int32_small) simp_all
  have c2: "cast_to Int32 (int ?k) = int ?k"
    using k31 by (intro cast_to_Int32_small) simp_all
  show ?thesis
    using k ne last
    by (simp only: search_sorted_cache_def mapE_fetch_string [OF st ids] bindE_def sum.case
          Let_def search_index_def string_lt_def string_eq_def c1 c2 length_map)
       (auto simp: string_lt_def)
qed


lemma cache_range_take:
  "a \<le> length (sorted_cache d) \<Longrightarrow> cache_range d 0 a = Inr (take a (sorted_cache d))"
  by (simp add: cache_range_def)

lemma cache_range_drop:
  "cache_range d b (length (sorted_cache d)) = Inr (drop b (sorted_cache d))"
  by (simp add: cache_range_def)

lemma not_in_sorted:
  fixes ss :: "str list"
  assumes srt: "sorted ss"
    and miss: "\<not> (length (takeWhile (\<lambda>a. a < p) ss) < length ss \<and>
                  ss ! length (takeWhile (\<lambda>a. a < p) ss) = p)"
  shows "p \<notin> set ss"
proof
  let ?k = "length (takeWhile (\<lambda>a. a < p) ss)"
  assume "p \<in> set ss"
  then obtain j where j: "j < length ss" "ss ! j = p" by (auto simp: in_set_conv_nth)
  have "?k \<le> j"
  proof (rule ccontr)
    assume "\<not> ?k \<le> j"
    then have "j < ?k" by simp
    have "takeWhile (\<lambda>a. a < p) ss ! j \<in> set (takeWhile (\<lambda>a. a < p) ss)"
      using \<open>j < ?k\<close> by (rule nth_mem)
    then have "takeWhile (\<lambda>a. a < p) ss ! j < p" by (auto dest: set_takeWhileD)
    then have "ss ! j < p" using \<open>j < ?k\<close> by (simp add: takeWhile_nth)
    then show False using j(2) by simp
  qed
  then have k: "?k < length ss" using j(1) by simp
  then have "\<not> ss ! ?k < p" by (rule nth_length_takeWhile)
  moreover have "ss ! ?k \<le> ss ! j" using srt \<open>?k \<le> j\<close> j(1) by (rule sorted_nth_mono)
  ultimately have "ss ! ?k = p" using j(2) by simp
  then show False using miss k by simp
qed


lemma compare_result_parts:
  assumes small: "length (sorted_cache d) < 2 ^ 31"
    and srt: "sorted (map f (sorted_cache d))"
  shows "\<exists>a b e.
      compare_result d ''<'' (search_index (map f (sorted_cache d)) p) = Inr (take a (sorted_cache d)) \<and>
      compare_result d ''>'' (search_index (map f (sorted_cache d)) p) = Inr (drop b (sorted_cache d)) \<and>
      compare_result d ''='' (search_index (map f (sorted_cache d)) p) = Inr e \<and>
      ((a = b \<and> e = [] \<and> p \<notin> set (map f (sorted_cache d))) \<or>
       (b = Suc a \<and> a < length (sorted_cache d) \<and> e = [sorted_cache d ! a] \<and>
        f (sorted_cache d ! a) = p))"
proof -
  let ?sc = "sorted_cache d"
  let ?ss = "map f ?sc"
  let ?k = "length (takeWhile (\<lambda>a. a < p) ?ss)"
  have k: "?k \<le> length ?sc"
    using length_takeWhile_le [of "\<lambda>a. a < p" ?ss] by simp
  have k64: "int ?k < 2 ^ 64" "int ?k + 1 < 2 ^ 64" using k small by simp_all
  show ?thesis
  proof (cases "?k < length ?ss \<and> ?ss ! ?k = p")
    case True
    then have v: "search_index ?ss p = (int ?k, 0)" by (simp add: search_index_def)
    have "compare_result d ''<'' (int ?k, 0) = Inr (take ?k ?sc)"
      using k k64 by (simp add: compare_result_def Let_def to_size_t_small cache_range_take)
    moreover have "compare_result d ''>'' (int ?k, 0) = Inr (drop (Suc ?k) ?sc)"
      using k k64 by (simp add: compare_result_def Let_def to_size_t_small cache_range_drop
            nat_add_distrib)
    moreover have "compare_result d ''='' (int ?k, 0) = Inr [?sc ! ?k]"
      using True by (simp add: compare_result_def Let_def)
    moreover have "f (?sc ! ?k) = p"
    proof -
      have "?k < length ?sc" using True by (simp only: length_map)
      then have "?ss ! ?k = f (?sc ! ?k)" by (rule nth_map)
      then show ?thesis using True by (simp only:)
    qed
    ultimately show ?thesis using True unfolding v by (intro exI [of _ ?k] exI [of _ "Suc ?k"]) simp
  next
    case False
    then have v: "search_index ?ss p = (int ?k - 1, 1)"
      by (simp only: search_index_def Let_def if_False)
    have miss: "p \<notin> set ?ss" using srt False by (rule not_in_sorted)
    let ?a = "if ?k = 1 then 0 else ?k"
    have idx: "(if int ?k - 1 = 0 \<and> (0::int) < 1 then to_size_t (int ?k - 1)
                else to_size_t (int ?k - 1 + 1)) = ?a"
      using k64 by (auto simp: to_size_t_small)
    have a: "?a \<le> length ?sc" using k by simp
    have "compare_result d ''<'' (int ?k - 1, 1) = Inr (take ?a ?sc)"
      by (simp only: compare_result_def Let_def fst_conv snd_conv idx)
         (use k in \<open>auto simp: cache_range_take\<close>)
    moreover have "compare_result d ''>'' (int ?k - 1, 1) = Inr (drop ?a ?sc)"
      by (simp only: compare_result_def Let_def fst_conv snd_conv idx)
         (auto simp: cache_range_drop)
    moreover have "compare_result d ''='' (int ?k - 1, 1) = Inr []"
      by (simp add: compare_result_def Let_def)
    ultimately show ?thesis using miss unfolding v by (intro exI [of _ ?a]) simp
  qed
qed

lemma map_of_filter_other:
  "q \<noteq> p \<Longrightarrow> map_of (filter (\<lambda>e. fst e \<noteq> p) xs) q = map_of xs q"
  by (induction xs) auto

lemma map_of_take_Some:
  "map_of (take k xs) q = Some v \<Longrightarrow> map_of xs q = Some v"
proof (induction xs arbitrary: k)
  case Nil
  then show ?case by simp
next
  case (Cons x xs)
  then show ?case by (cases k) (auto split: if_splits)
qed

lemma scan_inv_compare_cache:
  assumes inv: "scan_inv cfg d strs"
    and entries: "\<forall>q v. map_of cc q = Some v \<longrightarrow>
        length (sorted_cache d) = length strs \<and>
        v = search_index (map (str_of strs) (sorted_cache d)) q"
  shows "scan_inv cfg (d\<lparr>compare_cache := cc\<rparr>) strs"
  using assms by (simp add: scan_inv_def caches_ok_def sorted_ok_def)

lemma compare_cache_lookup:
  assumes inv: "scan_inv cfg d strs" and cfg: "config_ok cfg"
    and full: "length (sorted_cache d) = length strs" and ne: "strs \<noteq> []"
  shows "\<exists>d'. (case compare_cache_get d p of
                 (d2, Some cache_index) \<Rightarrow> Inr (d2, cache_index)
               | (d2, None) \<Rightarrow>
                   bindE (search_sorted_cache cfg d2 p) (\<lambda>cache_index.
                     Inr (compare_cache_put cfg d2 p cache_index, cache_index))) =
              Inr (d', search_index (map (str_of strs) (sorted_cache d)) p) \<and>
           scan_inv cfg d' strs \<and> sorted_cache d' = sorted_cache d"
proof -
  note facts = scan_inv_small [OF inv cfg]
  let ?v = "search_index (map (str_of strs) (sorted_cache d)) p"
  have old: "\<forall>q v. map_of (compare_cache d) q = Some v \<longrightarrow>
        length (sorted_cache d) = length strs \<and>
        v = search_index (map (str_of strs) (sorted_cache d)) q"
    using inv by (simp add: scan_inv_def caches_ok_def)
  let ?cc = "(p, ?v) # filter (\<lambda>e. fst e \<noteq> p) (compare_cache d)"
  have new: "\<forall>q v. map_of ?cc q = Some v \<longrightarrow>
        length (sorted_cache d) = length strs \<and>
        v = search_index (map (str_of strs) (sorted_cache d)) q"
    using old full by (auto simp: map_of_filter_other)
  show ?thesis
  proof (cases "map_of (compare_cache d) p")
    case (Some v)
    then have v: "v = ?v" using old by blast
    have "scan_inv cfg (d\<lparr>compare_cache := ?cc\<rparr>) strs"
      using inv new by (rule scan_inv_compare_cache)
    then show ?thesis using Some v by (simp add: compare_cache_get_def)
  next
    case None
    have so: "set (sorted_cache d) = int ` {0..<length (sorted_cache d)}"
      using inv by (simp add: scan_inv_def caches_ok_def sorted_ok_def)
    have ids: "\<forall>x\<in>set (sorted_cache d). 0 \<le> x \<and> nat x < length strs"
      using so full by auto
    have "sorted_cache d \<noteq> []" using full ne by auto
    from search_sorted_cache_index [OF facts(3) ids this, of p] facts(1) full
    have search: "search_sorted_cache cfg d p = Inr ?v" by simp
    let ?cc' = "take (compare_cache_capacity cfg) ?cc"
    have "\<forall>q v. map_of ?cc' q = Some v \<longrightarrow>
        length (sorted_cache d) = length strs \<and>
        v = search_index (map (str_of strs) (sorted_cache d)) q"
      using new by (meson map_of_take_Some)
    with inv have "scan_inv cfg (d\<lparr>compare_cache := ?cc'\<rparr>) strs"
      by (rule scan_inv_compare_cache)
    then show ?thesis
      using None search by (simp add: compare_cache_get_def compare_cache_put_def bindE_def)
  qed
qed

lemma bindE_unit: "bindE (Inr x) f = f x"
  by (simp add: bindE_def)

lemma compare_result_cong:
  "sorted_cache d = sorted_cache d' \<Longrightarrow> compare_result d op v = compare_result d' op v"
  by (simp add: compare_result_def cache_range_def Let_def)

lemma getCompare_sorted:
  assumes inv: "scan_inv cfg d strs" and cfg: "config_ok cfg" and ne: "strs \<noteq> []"
    and op: "length (sorted_cache d) = length strs \<or> (op \<noteq> ''='' \<and> op \<noteq> ''<>'')"
  shows "\<exists>d'. scan_inv cfg d' strs \<and> length (sorted_cache d') = length strs \<and>
           getCompare cfg d p op generation =
             bindE (compare_result d' op (search_index (map (str_of strs) (sorted_cache d')) p))
               (\<lambda>ret. Inr (d', ret))"
proof -
  note facts = scan_inv_small [OF inv cfg]
  have le: "length (sorted_cache d) \<le> length strs"
    using inv by (simp add: scan_inv_def caches_ok_def sorted_ok_def)
  have "\<exists>d1. (if length (sorted_cache d) < str_count d then buildSortedCache cfg d else Inr d) = Inr d1 \<and>
           scan_inv cfg d1 strs \<and> length (sorted_cache d1) = length strs"
  proof (cases "length (sorted_cache d) < length strs")
    case True
    from buildSortedCache_complete [OF inv cfg True] show ?thesis
      using True facts(2) by auto
  next
    case False
    then show ?thesis using le inv facts(2) by simp
  qed
  then obtain d1 where d1: "(if length (sorted_cache d) < str_count d then buildSortedCache cfg d else Inr d) = Inr d1"
      "scan_inv cfg d1 strs" "length (sorted_cache d1) = length strs"
    by blast
  from compare_cache_lookup [OF d1(2) cfg d1(3) ne, of p]
  obtain d3 where d3: "(case compare_cache_get d1 p of
                 (d2, Some cache_index) \<Rightarrow> Inr (d2, cache_index)
               | (d2, None) \<Rightarrow>
                   bindE (search_sorted_cache cfg d2 p) (\<lambda>cache_index.
                     Inr (compare_cache_put cfg d2 p cache_index, cache_index))) =
              Inr (d3, search_index (map (str_of strs) (sorted_cache d1)) p)"
      "scan_inv cfg d3 strs" "sorted_cache d3 = sorted_cache d1"
    by blast
  have branch: "\<not> (length (sorted_cache d) < str_count d \<and> (op = ''='' \<or> op = ''<>''))"
    using op facts(2) by auto
  have pos: "str_count d \<noteq> 0" using ne facts(2) by simp
  have "getCompare cfg d p op generation =
      bindE (compare_result d3 op (search_index (map (str_of strs) (sorted_cache d3)) p))
        (\<lambda>ret. Inr (d3, ret))"
    unfolding getCompare_def using branch pos
    by (simp only: if_False d1(1) d3(1) d3(3) bindE_unit prod.case)
  then show ?thesis using d3(2,3) d1(3) by auto
qed

lemma sorted_cache_unique:
  assumes a: "sorted_ok d strs" "length (sorted_cache d) = length strs"
    and b: "sorted_ok d' strs" "length (sorted_cache d') = length strs"
    and dist: "distinct strs"
  shows "sorted_cache d = sorted_cache d'"
proof -
  let ?f = "str_of strs"
  have sets: "set (sorted_cache d) = int ` {0..<length strs}"
      "set (sorted_cache d') = int ` {0..<length strs}"
    using a b by (simp_all add: sorted_ok_def)
  have inj: "inj_on ?f (int ` {0..<length strs})"
    using dist by (auto simp: inj_on_def str_of_def nth_eq_iff_index_eq)
  have "distinct (map ?f (sorted_cache d))" "distinct (map ?f (sorted_cache d'))"
    using a(1) b(1) inj sets by (simp_all add: distinct_map sorted_ok_def)
  moreover have "sorted (map ?f (sorted_cache d))" "sorted (map ?f (sorted_cache d'))"
    using a(1) b(1) by (simp_all add: sorted_ok_def)
  moreover have "set (map ?f (sorted_cache d)) = set (map ?f (sorted_cache d'))"
    using sets by simp
  ultimately have "map ?f (sorted_cache d) = map ?f (sorted_cache d')"
    by (intro sorted_distinct_set_unique)
  moreover have "inj_on ?f (set (sorted_cache d) \<union> set (sorted_cache d'))"
    using inj sets by simp
  ultimately show ?thesis by (simp add: inj_on_map_eq_map)
qed

section \<open>Scan exclusivity\<close>

lemma equal_ids_of_parts:
  assumes inv: "scan_inv cfg d strs" and cfg: "config_ok cfg"
    and full: "length (sorted_cache d) = length strs"
    and parts: "(e = [] \<and> p \<notin> set (map (str_of strs) (sorted_cache d))) \<or>
       (a < length (sorted_cache d) \<and> e = [sorted_cache d ! a] \<and>
        str_of strs (sorted_cache d ! a) = p)"
  shows "set e = {int i | i. i < length strs \<and> strs ! i = p}"
proof -
  note facts = scan_inv_small [OF inv cfg]
  have so: "set (sorted_cache d) = int ` {0..<length strs}"
    using inv full by (simp add: scan_inv_def caches_ok_def sorted_ok_def)
  from parts show ?thesis
  proof
    assume absent: "e = [] \<and> p \<notin> set (map (str_of strs) (sorted_cache d))"
    have "strs ! i \<noteq> p" if "i < length strs" for i
    proof -
      have "int i \<in> set (sorted_cache d)" using that so by simp
      then have "str_of strs (int i) \<in> set (map (str_of strs) (sorted_cache d))"
        by (simp only: set_map) (rule imageI)
      then show ?thesis using absent by (auto simp: str_of_def)
    qed
    then show ?thesis using absent by auto
  next
    assume present: "a < length (sorted_cache d) \<and> e = [sorted_cache d ! a] \<and>
        str_of strs (sorted_cache d ! a) = p"
    then have "sorted_cache d ! a \<in> set (sorted_cache d)" by simp
    then obtain j where j: "sorted_cache d ! a = int j" "j < length strs"
      using so by auto
    then have "strs ! j = p" using present by (simp add: str_of_def)
    then have "{int i | i. i < length strs \<and> strs ! i = p} = {int j}"
      using matching_ids [OF facts(4) j(2)] by simp
    then show ?thesis using present j(1) by simp
  qed
qed

lemma take_drop_partition:
  assumes "distinct sc"
  shows "set (take a sc) \<inter> set (drop a sc) = {}"
    and "set (take a sc) \<union> set (drop a sc) = set sc"
proof -
  have "sc = take a sc @ drop a sc" by simp
  then have "distinct (take a sc @ drop a sc)" using assms by simp
  then show "set (take a sc) \<inter> set (drop a sc) = {}" by (simp only: distinct_append)
  show "set (take a sc) \<union> set (drop a sc) = set sc"
    by (simp only: set_append [symmetric] append_take_drop_id)
qed

lemma take_nth_drop_partition:
  assumes "distinct sc" and "a < length sc"
  shows "set (take a sc) \<inter> {sc ! a} = {}"
    and "set (take a sc) \<inter> set (drop (Suc a) sc) = {}"
    and "{sc ! a} \<inter> set (drop (Suc a) sc) = {}"
    and "set (take a sc) \<union> {sc ! a} \<union> set (drop (Suc a) sc) = set sc"
proof -
  have eq: "sc = take a sc @ sc ! a # drop (Suc a) sc"
    using assms(2) by (rule id_take_nth_drop)
  then have d: "distinct (take a sc @ sc ! a # drop (Suc a) sc)" using assms(1) by simp
  from d show "set (take a sc) \<inter> {sc ! a} = {}" by auto
  from d show "set (take a sc) \<inter> set (drop (Suc a) sc) = {}" by auto
  from d show "{sc ! a} \<inter> set (drop (Suc a) sc) = {}" by auto
  have "set sc = set (take a sc @ sc ! a # drop (Suc a) sc)" using eq by simp
  then show "set (take a sc) \<union> {sc ! a} \<union> set (drop (Suc a) sc) = set sc" by auto
qed

lemma getCompare_eq:
  assumes inv: "scan_inv cfg d strs" and cfg: "config_ok cfg" and threads: "0 < cpu_threads cfg"
    and ne: "strs \<noteq> []"
  shows "\<exists>d' eq. getCompare cfg d p ''='' (length strs) = Inr (d', eq) \<and>
           set eq = {int i | i. i < length strs \<and> strs ! i = p} \<and> scan_inv cfg d' strs"
proof (cases "length (sorted_cache d) < length strs")
  case True
  note facts = scan_inv_small [OF inv cfg]
  have "getCompare cfg d p ''='' (length strs) = getEquals cfg d p ''='' (length strs)"
    using True ne facts(2) by (simp add: getCompare_def)
  then show ?thesis using getEquals_eq [OF inv cfg threads, of p] by auto
next
  case False
  have "length (sorted_cache d) \<le> length strs"
    using inv by (simp add: scan_inv_def caches_ok_def sorted_ok_def)
  then have full: "length (sorted_cache d) = length strs" using False by simp
  from getCompare_sorted [OF inv cfg ne, of "''=''" p "length strs"] full
  obtain d' where d': "scan_inv cfg d' strs" "length (sorted_cache d') = length strs"
      "getCompare cfg d p ''='' (length strs) =
         bindE (compare_result d' ''='' (search_index (map (str_of strs) (sorted_cache d')) p))
           (\<lambda>ret. Inr (d', ret))"
    by blast
  note facts = scan_inv_small [OF d'(1) cfg]
  have srt: "sorted (map (str_of strs) (sorted_cache d'))"
    using d'(1) by (simp add: scan_inv_def caches_ok_def sorted_ok_def)
  have small: "length (sorted_cache d') < 2 ^ 31" using d'(2) facts(1) by simp
  from compare_result_parts [OF small srt, of p]
  obtain a b e where parts:
      "compare_result d' ''='' (search_index (map (str_of strs) (sorted_cache d')) p) = Inr e"
      "(a = b \<and> e = [] \<and> p \<notin> set (map (str_of strs) (sorted_cache d'))) \<or>
       (b = Suc a \<and> a < length (sorted_cache d') \<and> e = [sorted_cache d' ! a] \<and>
        str_of strs (sorted_cache d' ! a) = p)"
    by blast
  have "set e = {int i | i. i < length strs \<and> strs ! i = p}"
    using parts(2) by (intro equal_ids_of_parts [OF d'(1) cfg d'(2), of e p a]) blast
  moreover have "getCompare cfg d p ''='' (length strs) = Inr (d', e)"
    by (simp only: d'(3) parts(1) bindE_unit)
  ultimately show ?thesis using d'(1) by blast
qed

text \<open>
  Claim C5 (scan exclusivity). Let \<open>da\<close>, \<open>db\<close> and \<open>dc\<close> be states of a local
  dictionary that holds the strings \<open>strs\<close>, at least one, and whose scan caches agree
  with them (the state after the inserts, or after any number of comparison scans).
  Then \<^verbatim>\<open>getCompare\<close> with generation \<open>str_count\<close> returns for each of the operators
  \<open><\<close>, \<open>=\<close> and \<open>>\<close>, the three vectors of ids are pairwise disjoint, together they
  are exactly the ids \<open>0, ..., str_count - 1\<close>, and the states after the calls are
  again such states, so the calls may follow one another in any order.
\<close>

theorem scan_exclusive:
  assumes cfg: "config_ok cfg" and threads: "0 < cpu_threads cfg"
    and a: "scan_inv cfg da strs" and b: "scan_inv cfg db strs" and c: "scan_inv cfg dc strs"
    and ne: "strs \<noteq> []"
  shows "\<exists>da' lt db' eq dc' gt.
      getCompare cfg da p ''<'' (str_count da) = Inr (da', lt) \<and>
      getCompare cfg db p ''='' (str_count db) = Inr (db', eq) \<and>
      getCompare cfg dc p ''>'' (str_count dc) = Inr (dc', gt) \<and>
      set lt \<inter> set eq = {} \<and> set lt \<inter> set gt = {} \<and> set eq \<inter> set gt = {} \<and>
      set lt \<union> set eq \<union> set gt = {0..<int (str_count da)} \<and>
      scan_inv cfg da' strs \<and> scan_inv cfg db' strs \<and> scan_inv cfg dc' strs"
proof -
  let ?n = "length strs" and ?f = "str_of strs"
  note fa = scan_inv_small [OF a cfg] and fb = scan_inv_small [OF b cfg]
    and fc = scan_inv_small [OF c cfg]
  from getCompare_sorted [OF a cfg ne, of "''<''" p ?n]
  obtain da' where da': "scan_inv cfg da' strs" "length (sorted_cache da') = ?n"
      "getCompare cfg da p ''<'' ?n =
         bindE (compare_result da' ''<'' (search_index (map ?f (sorted_cache da')) p))
           (\<lambda>ret. Inr (da', ret))"
    by auto
  from getCompare_sorted [OF c cfg ne, of "''>''" p ?n]
  obtain dc' where dc': "scan_inv cfg dc' strs" "length (sorted_cache dc') = ?n"
      "getCompare cfg dc p ''>'' ?n =
         bindE (compare_result dc' ''>'' (search_index (map ?f (sorted_cache dc')) p))
           (\<lambda>ret. Inr (dc', ret))"
    by auto
  from getCompare_eq [OF b cfg threads ne, of p]
  obtain db' eq where db': "getCompare cfg db p ''='' ?n = Inr (db', eq)"
      "set eq = {int i | i. i < ?n \<and> strs ! i = p}" "scan_inv cfg db' strs"
    by blast
  let ?sc = "sorted_cache da'"
  have so: "sorted_ok da' strs" "sorted_ok dc' strs"
    using da'(1) dc'(1) by (simp_all add: scan_inv_def caches_ok_def)
  have same: "sorted_cache dc' = ?sc"
    using sorted_cache_unique [OF so(2) dc'(2) so(1) da'(2) fa(4)] .
  have dist: "distinct ?sc" and all: "set ?sc = int ` {0..<?n}"
    and srt: "sorted (map ?f ?sc)"
    using so(1) da'(2) by (simp_all add: sorted_ok_def)
  have small: "length ?sc < 2 ^ 31" using da'(2) fa(1) by simp
  from compare_result_parts [OF small srt, of p]
  obtain a b e where parts:
      "compare_result da' ''<'' (search_index (map ?f ?sc) p) = Inr (take a ?sc)"
      "compare_result da' ''>'' (search_index (map ?f ?sc) p) = Inr (drop b ?sc)"
      "(a = b \<and> e = [] \<and> p \<notin> set (map ?f ?sc)) \<or>
       (b = Suc a \<and> a < length ?sc \<and> e = [?sc ! a] \<and> ?f (?sc ! a) = p)"
    by blast
  have e: "set e = set eq"
    unfolding db'(2) using parts(3)
    by (intro equal_ids_of_parts [OF da'(1) cfg da'(2), of e p a]) blast
  have lt: "getCompare cfg da p ''<'' (str_count da) = Inr (da', take a ?sc)"
    by (simp only: fa(2) da'(3) parts(1) bindE_unit)
  have "compare_result dc' ''>'' (search_index (map ?f (sorted_cache dc')) p) = Inr (drop b ?sc)"
    using compare_result_cong [OF same, of "''>''"] parts(2) by (simp only: same)
  then have gt: "getCompare cfg dc p ''>'' (str_count dc) = Inr (dc', drop b ?sc)"
    by (simp only: fc(2) dc'(3) bindE_unit)
  have eqc: "getCompare cfg db p ''='' (str_count db) = Inr (db', eq)"
    by (simp only: fb(2) db'(1))
  have ids: "int ` {0..<?n} = {0..<int (str_count da)}"
    by (simp add: fa(2) image_int_atLeastLessThan)
  have split: "set (take a ?sc) \<inter> set eq = {} \<and> set (take a ?sc) \<inter> set (drop b ?sc) = {} \<and>
      set eq \<inter> set (drop b ?sc) = {} \<and>
      set (take a ?sc) \<union> set eq \<union> set (drop b ?sc) = set ?sc"
    using parts(3)
  proof
    assume "a = b \<and> e = [] \<and> p \<notin> set (map ?f ?sc)"
    then have "b = a" "set eq = {}" using e by auto
    then show ?thesis using take_drop_partition [OF dist, of a] by simp
  next
    assume "b = Suc a \<and> a < length ?sc \<and> e = [?sc ! a] \<and> ?f (?sc ! a) = p"
    then have "b = Suc a" "set eq = {?sc ! a}" "a < length ?sc" using e by auto
    then show ?thesis using take_nth_drop_partition [OF dist, of a] by simp
  qed
  have "set (take a ?sc) \<union> set eq \<union> set (drop b ?sc) = {0..<int (str_count da)}"
    using split by (simp only: all ids)
  then show ?thesis
    using lt eqc gt split da'(1) db'(3) dc'(1)
    by (intro exI [of _ da'] exI [of _ "take a ?sc"] exI [of _ db'] exI [of _ eq]
          exI [of _ dc'] exI [of _ "drop b ?sc"]) (simp only: simp_thms)
qed

lemma sorted_ok_snoc:
  assumes "sorted_ok d strs" and "sorted_cache d' = sorted_cache d"
  shows "sorted_ok d' (strs @ [s])"
proof -
  have ids: "set (sorted_cache d) = int ` {0..<length (sorted_cache d)}"
    and le: "length (sorted_cache d) \<le> length strs"
    using assms(1) by (simp_all add: sorted_ok_def)
  have same: "map (str_of (strs @ [s])) (sorted_cache d) = map (str_of strs) (sorted_cache d)"
  proof (rule map_cong [OF refl])
    fix x assume "x \<in> set (sorted_cache d)"
    then have "nat x < length strs" using ids le by auto
    then show "str_of (strs @ [s]) x = str_of strs x" by (simp add: str_of_def nth_append)
  qed
  have "sorted (map (str_of strs) (sorted_cache d))"
    and "distinct (sorted_cache d)"
    using assms(1) by (simp_all add: sorted_ok_def)
  then show ?thesis
    unfolding sorted_ok_def assms(2) same using ids le by simp
qed

lemma scan_inv_getOrAdd_new:
  assumes dinv: "dict_inv cfg d strs" and inv: "scan_inv cfg d strs" and cfg: "config_ok cfg"
    and s: "s \<noteq> []" "length s \<le> MAX_STRLEN cfg" "s \<notin> set strs"
    and cap: "length strs < MAX_STRCOUNT cfg"
  shows "\<exists>d'. getOrAdd cfg d s = Some (Inr (d', int (length strs))) \<and>
           dict_inv cfg d' (strs @ [s]) \<and> scan_inv cfg d' (strs @ [s])"
proof -
  have so: "sorted_ok d strs"
    using inv by (simp_all add: scan_inv_def caches_ok_def)
  from getOrAddImpl_new [OF dinv cfg s cap]
  obtain d' where d': "getOrAddImpl cfg d s = Some (Inr (d', int (length strs)))"
      "dict_inv cfg d' (strs @ [s])" "sorted_cache d' = sorted_cache d"
      "equal_cache d' = Map.empty" "compare_cache d' = []"
    by blast
  have "sorted_ok d' (strs @ [s])" using so d'(3) by (rule sorted_ok_snoc)
  then have "scan_inv cfg d' (strs @ [s])"
    using dict_inv_store [OF d'(2)] d'(4,5) by (simp add: scan_inv_def caches_ok_def)
  then show ?thesis using d'(1,2) by (auto simp: getOrAdd_def)
qed

lemma scan_inv_getOrAdd_all:
  assumes cfg: "config_ok cfg"
  shows "dict_inv cfg d strs \<Longrightarrow> scan_inv cfg d strs \<Longrightarrow> distinct (strs @ xs) \<Longrightarrow>
         \<forall>s\<in>set xs. s \<noteq> [] \<and> length s \<le> MAX_STRLEN cfg \<Longrightarrow>
         length strs + length xs \<le> MAX_STRCOUNT cfg \<Longrightarrow>
         \<exists>d' ids. getOrAdd_all cfg d xs = Some (Inr (d', ids)) \<and> scan_inv cfg d' (strs @ xs)"
proof (induction xs arbitrary: d strs)
  case Nil
  then show ?case by simp
next
  case (Cons x xs)
  have x: "x \<noteq> []" "length x \<le> MAX_STRLEN cfg" "x \<notin> set strs"
    "length strs < MAX_STRCOUNT cfg"
    using Cons.prems by auto
  from scan_inv_getOrAdd_new [OF Cons.prems(1,2) cfg x]
  obtain d1 where d1: "getOrAdd cfg d x = Some (Inr (d1, int (length strs)))"
      "dict_inv cfg d1 (strs @ [x])" "scan_inv cfg d1 (strs @ [x])"
    by blast
  have "\<exists>d' ids. getOrAdd_all cfg d1 xs = Some (Inr (d', ids)) \<and>
      scan_inv cfg d' ((strs @ [x]) @ xs)"
    using Cons.prems by (intro Cons.IH [OF d1(2,3)]) auto
  then obtain d' ids where d': "getOrAdd_all cfg d1 xs = Some (Inr (d', ids))"
      "scan_inv cfg d' (strs @ x # xs)"
    by auto
  have "getOrAdd_all cfg d (x # xs) = Some (Inr (d', int (length strs) # ids))"
    using d1(1) d'(1) by (simp add: bindP_def)
  then show ?case using d'(2) by blast
qed

lemma StringDictionary_scan_inv:
  assumes cfg: "config_ok cfg"
    and opened: "StringDictionary cfg folder' isTemp' False materializeHashes initial_capacity = Some (Inr d0)"
    and loc: "isTemp' \<or> folder' \<noteq> None"
    and cap: "4 \<le> initial_capacity" "initial_capacity \<le> 2 ^ 32"
  shows "scan_inv cfg d0 []"
  using dict_inv_store [OF StringDictionary_dict_inv [OF cfg opened loc cap]]
    StringDictionary_fresh(5-7) [OF cfg opened loc]
  by (simp add: scan_inv_def caches_ok_def sorted_ok_def)

text \<open>
  The example: \<open>"a"\<close> and \<open>"ab"\<close> inserted into a fresh temporary dictionary of
  capacity 4, scanned for the pattern \<open>"ab"\<close>; the three vectors partition the ids 0, 1.
\<close>

theorem scan_exclusive_witness:
  "\<exists>d0 d ids da' lt db' eq dc' gt.
      StringDictionary example_cfg None True False False 4 = Some (Inr d0) \<and>
      getOrAdd_all example_cfg d0 [[0x61], [0x61, 0x62]] = Some (Inr (d, ids)) \<and>
      str_count d = 2 \<and>
      getCompare example_cfg d [0x61, 0x62] ''<'' 2 = Inr (da', lt) \<and>
      getCompare example_cfg d [0x61, 0x62] ''='' 2 = Inr (db', eq) \<and>
      getCompare example_cfg d [0x61, 0x62] ''>'' 2 = Inr (dc', gt) \<and>
      set lt \<inter> set eq = {} \<and> set lt \<inter> set gt = {} \<and> set eq \<inter> set gt = {} \<and>
      set lt \<union> set eq \<union> set gt = {0..<2}"
proof -
  let ?strs = "[[0x61], [0x61, 0x62 :: byte]]"
  have "\<exists>d0. StringDictionary example_cfg None True False False 4 = Some (Inr d0)"
    by (simp add: open_simps result_simps storage_simps)
  then obtain d0 where opened: "StringDictionary example_cfg None True False False 4 = Some (Inr d0)"
    by blast
  have fresh: "scan_inv example_cfg d0 []"
    by (rule StringDictionary_scan_inv [OF example_cfg_ok opened]) simp_all
  have fresh': "dict_inv example_cfg d0 []"
    by (rule StringDictionary_dict_inv [OF example_cfg_ok opened]) simp_all
  have "\<exists>d ids. getOrAdd_all example_cfg d0 ?strs = Some (Inr (d, ids)) \<and>
      scan_inv example_cfg d ([] @ ?strs)"
    by (rule scan_inv_getOrAdd_all [OF example_cfg_ok fresh' fresh]) (simp_all add: example_cfg_def)
  then obtain d ids where d: "getOrAdd_all example_cfg d0 ?strs = Some (Inr (d, ids))"
      "scan_inv example_cfg d ?strs"
    by auto
  have count: "str_count d = 2" using d(2) by (simp add: scan_inv_def store_inv_def)
  have threads: "0 < cpu_threads example_cfg" by (simp add: example_cfg_def)
  from scan_exclusive [OF example_cfg_ok threads d(2) d(2) d(2), of "[0x61, 0x62]"]
  obtain da' lt db' eq dc' gt where
      "getCompare example_cfg d [0x61, 0x62] ''<'' (str_count d) = Inr (da', lt)"
      "getCompare example_cfg d [0x61, 0x62] ''='' (str_count d) = Inr (db', eq)"
      "getCompare example_cfg d [0x61, 0x62] ''>'' (str_count d) = Inr (dc', gt)"
      "set lt \<inter> set eq = {}" "set lt \<inter> set gt = {}" "set eq \<inter> set gt = {}"
      "set lt \<union> set eq \<union> set gt = {0..<int (str_count d)}"
    by auto
  then show ?thesis using opened d(1) count by (simp only: of_nat_numeral) blast
qed

section \<open>Recovery: reading the files\<close>

text \<open>Two states see the same files: what a read of the storage depends on.\<close>

definition same_store :: "dict \<Rightarrow> dict \<Rightarrow> bool" where
  "same_store d d' \<longleftrightarrow>
     offset_map d' = offset_map d \<and> payload_map d' = payload_map d \<and>
     offset_file_size d' = offset_file_size d \<and> payload_file_size d' = payload_file_size d \<and>
     fds_checked d' = fds_checked d"

lemma same_store_refl [simp]: "same_store d d"
  by (simp add: same_store_def)








text \<open>The number of occupied slots of a bucket array.\<close>

definition occupied :: "int list \<Rightarrow> nat" where
  "occupied data = length (filter (\<lambda>x. x \<noteq> INVALID_STR_ID) data)"



section \<open>Recovery: installing the hashes\<close>








section \<open>Recovery fidelity\<close>

lemma occupied_replicate [simp]: "occupied (replicate n INVALID_STR_ID) = 0"
  by (simp add: occupied_def)




section \<open>Files of a write session\<close>







end
